theory Spec2Isabelle
  imports Main
begin

section \<open>The syntax tree\<close>

text \<open>
  The program works on the syntax tree of pycparser. A node is one of the kinds the
  code inspects by type (\<open>FileAST\<close>, \<open>Compound\<close>, \<open>If\<close>, \<open>While\<close>, \<open>FuncDef\<close>,
  \<open>Continue\<close>, \<open>Assignment\<close>, \<open>Decl\<close>, \<open>TypeDecl\<close>, \<open>PtrDecl\<close>, \<open>Enum\<close>, \<open>ID\<close>) or any
  other kind, kept as \<open>Other\<close> with the name of its class and its children in the
  order the library iterates them. \<open>EmptyCompound\<close> is the \<open>Compound\<close> whose
  \<open>block_items\<close> is \<open>None\<close> (what the parser builds for \<open>{}\<close>); \<open>Compound []\<close> is the
  one built in the code with an empty list. Source coordinates only label the
  output of \<open>draw\<close> and \<open>print_cfg\<close> and are left out.
\<close>

datatype node =
    FileAST "node list"
  | Compound "node list"
  | EmptyCompound
  | If node node "node option"
  | While node node
  | FuncDef node node
  | Continue
  | Assignment string node node
  | Decl string node "node option"
  | TypeDecl string node
  | PtrDecl node
  | Enum string "node list"
  | ID string
  | Other string "node list"

text \<open>The exceptions that the modelled code can raise.\<close>

datatype error =
    AttributeError
  | TypeError
  | KeyError
  | ValueError
  | NetworkXError
  | NetworkXUnfeasible
  | IndexError
  | PreconditionError

definition bind :: "error + 'a \<Rightarrow> ('a \<Rightarrow> error + 'b) \<Rightarrow> error + 'b" where
  "bind m f = (case m of Inl e \<Rightarrow> Inl e | Inr x \<Rightarrow> f x)"

section \<open>The control-flow graph\<close>

text \<open>
  A vertex of the graph is a Python object, and the graph library keys it by
  identity (the node classes define no equality). An object is modelled by its
  address in a heap, a list of the objects allocated so far; creating an object
  appends to the heap. The objects of a graph are the markers and guards that
  \<open>ast_to_cfg\<close> creates and the leaf statements of the tree.
\<close>

datatype obj =
    IfStart
  | IfEnd
  | WhileEnd
  | FuncDefEnd
  | IfGuard node
  | WhileGuard node
  | FuncDefGuard node
  | Stmt node

type_synonym vertex = nat
type_synonym heap = "obj list"

definition alloc :: "heap \<Rightarrow> obj \<Rightarrow> heap \<times> vertex" where
  "alloc h ob = (h @ [ob], length h)"

text \<open>
  \<open>networkx.DiGraph\<close>: the vertices in insertion order and the edges in insertion
  order, neither with duplicates.
\<close>

record digraph =
  gnodes :: "vertex list"
  gedges :: "(vertex \<times> vertex) list"

definition empty_graph :: digraph where
  "empty_graph = \<lparr>gnodes = [], gedges = []\<rparr>"

definition insert_new :: "'a \<Rightarrow> 'a list \<Rightarrow> 'a list" where
  "insert_new x xs = (if x \<in> set xs then xs else xs @ [x])"

lemma insert_new_code [code]:
  "insert_new x [] = [x]"
  "insert_new x (y # ys) = (if x = y then y # ys else y # insert_new x ys)"
  by (auto simp: insert_new_def)

text \<open>\<open>add_node\<close> and \<open>add_edge\<close> refuse \<open>None\<close> with a \<open>ValueError\<close>.\<close>

definition add_node :: "digraph \<Rightarrow> vertex option \<Rightarrow> error + digraph" where
  "add_node g v =
     (case v of
        None \<Rightarrow> Inl ValueError
      | Some x \<Rightarrow> Inr (g\<lparr>gnodes := insert_new x (gnodes g)\<rparr>))"

definition add_edge :: "digraph \<Rightarrow> vertex option \<Rightarrow> vertex option \<Rightarrow> error + digraph" where
  "add_edge g u v =
     (case (u, v) of
        (Some x, Some y) \<Rightarrow>
          Inr (g\<lparr>gnodes := insert_new y (insert_new x (gnodes g)),
                 gedges := insert_new (x, y) (gedges g)\<rparr>)
      | _ \<Rightarrow> Inl ValueError)"

definition successors :: "digraph \<Rightarrow> vertex \<Rightarrow> vertex list" where
  "successors g v = map snd (filter (\<lambda>e. fst e = v) (gedges g))"

type_synonym cfg_state = "heap \<times> digraph"
type_synonym region = "vertex option \<times> vertex option"

lemma bind_cong [fundef_cong]:
  "m = m' \<Longrightarrow> (\<And>x. m' = Inr x \<Longrightarrow> f x = f' x) \<Longrightarrow> bind m f = bind m' f'"
  by (cases m') (simp_all add: bind_def)

text \<open>
  \<open>ast_to_cfg(digraph, ast)\<close>. The graph is mutated in place, so the model passes it
  (with the heap) through every call, in the order of the source's statements.
  A leaf is added as the vertex that is the tree node itself; the nodes of a tree
  are distinct objects, which the model renders by giving each leaf its own
  address when it is reached. \<open>ast_to_cfg_items\<close> is the \<open>for\<close> loop of the
  \<open>Compound\<close> case with its variables \<open>first\<close> and \<open>old_i_last\<close>.
\<close>

fun ast_to_cfg :: "cfg_state \<Rightarrow> node \<Rightarrow> error + (cfg_state \<times> region)"
  and ast_to_cfg_items ::
    "cfg_state \<Rightarrow> vertex option \<Rightarrow> vertex option \<Rightarrow> node list \<Rightarrow> error + (cfg_state \<times> region)"
where
  "ast_to_cfg (h, g) (If c t f) =
     (let (h1, first) = alloc h IfStart;
          (h2, last) = alloc h1 IfEnd
      in bind (add_node g (Some last)) (\<lambda>g1.
         let (h3, true_branch_first) = alloc h2 (IfGuard c)
         in bind (ast_to_cfg (h3, g1) t) (\<lambda>((h4, g2), (tf, tl)).
            bind (add_node g2 (Some first)) (\<lambda>g3.
            bind (add_node g3 (Some true_branch_first)) (\<lambda>g4.
            bind (add_node g4 tf) (\<lambda>g5.
            bind (add_node g5 tl) (\<lambda>g6.
            bind (add_edge g6 (Some first) (Some true_branch_first)) (\<lambda>g7.
            bind (add_edge g7 (Some true_branch_first) tf) (\<lambda>g8.
            bind (add_edge g8 tl (Some last)) (\<lambda>g9.
            bind (case f of
                    None \<Rightarrow> Inr (h4, g9)
                  | Some e \<Rightarrow>
                      (let (h5, false_branch_first) =
                             alloc h4 (IfGuard (Other ''UnaryOp:!'' [c]))
                       in bind (add_node g9 (Some false_branch_first)) (\<lambda>g10.
                          bind (add_edge g10 (Some first) (Some false_branch_first)) (\<lambda>g11.
                          bind (ast_to_cfg (h5, g11) e) (\<lambda>((h6, g12), (ff, fl)).
                          bind (add_node g12 ff) (\<lambda>g13.
                          bind (add_node g13 fl) (\<lambda>g14.
                          bind (add_edge g14 (Some false_branch_first) ff) (\<lambda>g15.
                          bind (add_edge g15 fl (Some last)) (\<lambda>g16.
                          Inr (h6, g16))))))))))
                 (\<lambda>(h7, g17).
            bind (add_edge g17 (Some first) (Some last)) (\<lambda>g18.
            Inr ((h7, g18), (Some first, Some last))))))))))))))"
| "ast_to_cfg (h, g) (While c s) =
     bind (ast_to_cfg (h, g) s) (\<lambda>((h1, g1), (body_first, body_last)).
       let (h2, first) = alloc h1 (WhileGuard c);
           (h3, last) = alloc h2 WhileEnd
       in bind (add_node g1 (Some first)) (\<lambda>g2.
          bind (add_edge g2 (Some first) body_first) (\<lambda>g3.
          bind (add_edge g3 body_last (Some last)) (\<lambda>g4.
          bind (add_edge g4 (Some first) (Some last)) (\<lambda>g5.
          Inr ((h3, g5), (Some first, Some last)))))))"
| "ast_to_cfg (h, g) (Compound items) = ast_to_cfg_items (h, g) None None items"
| "ast_to_cfg (h, g) EmptyCompound = Inl TypeError"
| "ast_to_cfg (h, g) (FuncDef d b) =
     bind (ast_to_cfg (h, g) b) (\<lambda>((h1, g1), (first_body, last_body)).
       let (h2, first) = alloc h1 (FuncDefGuard d);
           (h3, last) = alloc h2 FuncDefEnd
       in bind (add_node g1 (Some first)) (\<lambda>g2.
          bind (add_edge g2 (Some first) first_body) (\<lambda>g3.
          bind (add_edge g3 last_body (Some last)) (\<lambda>g4.
          Inr ((h3, g4), (Some first, Some last))))))"
| "ast_to_cfg (h, g) n =
     (let (h1, v) = alloc h (Stmt n)
      in bind (add_node g (Some v)) (\<lambda>g1. Inr ((h1, g1), (Some v, Some v))))"
| "ast_to_cfg_items (h, g) first old_i_last [] = Inr ((h, g), (first, old_i_last))"
| "ast_to_cfg_items (h, g) first old_i_last (i # items) =
     bind (ast_to_cfg (h, g) i) (\<lambda>((h1, g1), (i_first, i_last)).
     bind (if old_i_last \<noteq> None then add_edge g1 old_i_last i_first else Inr g1) (\<lambda>g2.
     ast_to_cfg_items (h1, g2) (if first = None then i_first else first) i_last items))"

subsection \<open>Vertices of a graph are allocated objects\<close>

lemma bind_Inr: "bind m f = Inr y \<longleftrightarrow> (\<exists>x. m = Inr x \<and> f x = Inr y)"
  by (cases m) (simp_all add: bind_def)

lemma bind_simps:
  "bind (Inr x) f = f x"
  "bind (Inl e) f = Inl e"
  by (simp_all add: bind_def)

lemma bind_weak_cong: "m = m' \<Longrightarrow> bind m f = bind m' f"
  by simp

lemmas cfg_eval = alloc_def bind_simps add_node_def add_edge_def insert_new_code empty_graph_def

lemma add_node_Inr:
  "add_node g v = Inr g' \<longleftrightarrow> (\<exists>x. v = Some x \<and> g' = g\<lparr>gnodes := insert_new x (gnodes g)\<rparr>)"
  by (auto simp: add_node_def split: option.splits)

lemma add_edge_Inr:
  "add_edge g u v = Inr g' \<longleftrightarrow>
   (\<exists>x y. u = Some x \<and> v = Some y \<and>
      g' = g\<lparr>gnodes := insert_new y (insert_new x (gnodes g)),
             gedges := insert_new (x, y) (gedges g)\<rparr>)"
  by (auto simp: add_edge_def split: option.splits)

lemma set_insert_new [simp]: "set (insert_new x xs) = insert x (set xs)"
  by (auto simp: insert_new_def)

definition bounded :: "nat \<Rightarrow> digraph \<Rightarrow> bool" where
  "bounded n g \<longleftrightarrow>
     (\<forall>v \<in> set (gnodes g). v < n) \<and> (\<forall>e \<in> set (gedges g). fst e < n \<and> snd e < n)"

definition below :: "nat \<Rightarrow> vertex option \<Rightarrow> bool" where
  "below n v = (case v of None \<Rightarrow> True | Some x \<Rightarrow> x < n)"

lemma bounded_mono: "bounded n g \<Longrightarrow> n \<le> m \<Longrightarrow> bounded m g"
  by (fastforce simp: bounded_def)

lemma below_mono: "below n v \<Longrightarrow> n \<le> m \<Longrightarrow> below m v"
  by (auto simp: below_def split: option.splits)

lemma add_node_bounded:
  "add_node g v = Inr g' \<Longrightarrow> bounded n g \<Longrightarrow> below n v \<Longrightarrow> bounded n g'"
  by (auto simp: add_node_Inr bounded_def below_def)

lemma add_edge_bounded:
  "add_edge g u v = Inr g' \<Longrightarrow> bounded n g \<Longrightarrow> below n u \<Longrightarrow> below n v \<Longrightarrow> bounded n g'"
  by (auto simp: add_edge_Inr bounded_def below_def)

lemma below_Some [simp]: "below n (Some x) \<longleftrightarrow> x < n"
  by (simp add: below_def)

lemma below_None [simp]: "below n None"
  by (simp add: below_def)

definition step_ok :: "cfg_state \<Rightarrow> cfg_state \<times> region \<Rightarrow> bool" where
  "step_ok st r \<longleftrightarrow>
     (\<exists>hs. fst (fst r) = fst st @ hs) \<and>
     (bounded (length (fst st)) (snd st) \<longrightarrow>
        bounded (length (fst (fst r))) (snd (fst r)) \<and>
        below (length (fst (fst r))) (fst (snd r)) \<and>
        below (length (fst (fst r))) (snd (snd r)))"

lemma step_okI:
  assumes "h' = h @ hs"
    and "bounded (length h) g \<Longrightarrow> bounded (length h') g' \<and> below (length h') a \<and> below (length h') b"
  shows "step_ok (h, g) ((h', g'), (a, b))"
  using assms by (simp add: step_ok_def)

lemma step_okD:
  assumes "step_ok (h, g) ((h', g'), (a, b))"
  shows "\<exists>hs. h' = h @ hs"
    and "bounded (length h) g \<Longrightarrow> bounded (length h') g'"
    and "bounded (length h) g \<Longrightarrow> below (length h') a"
    and "bounded (length h) g \<Longrightarrow> below (length h') b"
  using assms by (simp_all add: step_ok_def)

lemma ast_to_cfg_items_step_ok:
  assumes elems: "\<And>x st r. x \<in> set ns \<Longrightarrow> ast_to_cfg st x = Inr r \<Longrightarrow> step_ok st r"
  shows "ast_to_cfg_items (h, g) fi ol ns = Inr ((h', g'), (a, b)) \<Longrightarrow>
     (\<exists>hs. h' = h @ hs) \<and>
     (bounded (length h) g \<longrightarrow> below (length h) fi \<longrightarrow> below (length h) ol \<longrightarrow>
        bounded (length h') g' \<and> below (length h') a \<and> below (length h') b)"
  using elems
proof (induction ns arbitrary: h g fi ol)
  case Nil
  then show ?case by simp
next
  case (Cons i items)
  from Cons.prems(1) obtain h1 g1 i_first i_last g2 where
    it: "ast_to_cfg (h, g) i = Inr ((h1, g1), (i_first, i_last))"
    and e: "(if ol \<noteq> None then add_edge g1 ol i_first else Inr g1) = Inr g2"
    and rest: "ast_to_cfg_items (h1, g2) (if fi = None then i_first else fi) i_last items
                 = Inr ((h', g'), (a, b))"
    by (auto simp: bind_Inr split: prod.splits)
  have ok: "step_ok (h, g) ((h1, g1), (i_first, i_last))"
    using Cons.prems(2)[OF _ it] by (meson list.set_intros(1))
  from step_okD(1)[OF ok] obtain hs1 where hs1: "h1 = h @ hs1" ..
  have IH: "(\<exists>hs. h' = h1 @ hs) \<and>
     (bounded (length h1) g2 \<longrightarrow> below (length h1) (if fi = None then i_first else fi) \<longrightarrow>
        below (length h1) i_last \<longrightarrow>
        bounded (length h') g' \<and> below (length h') a \<and> below (length h') b)"
    using Cons.IH[OF rest] Cons.prems(2) by (meson list.set_intros(2))
  then obtain hs2 where hs2: "h' = h1 @ hs2" by blast
  have pre: "\<exists>hs. h' = h @ hs" using hs1 hs2 by simp
  have "bounded (length h') g' \<and> below (length h') a \<and> below (length h') b"
    if bg: "bounded (length h) g" and bfi: "below (length h) fi" and bol: "below (length h) ol"
  proof -
    have le: "length h \<le> length h1" using hs1 by simp
    have b1: "bounded (length h1) g1" using step_okD(2)[OF ok bg] .
    have bif: "below (length h1) i_first" using step_okD(3)[OF ok bg] .
    have bil: "below (length h1) i_last" using step_okD(4)[OF ok bg] .
    have bol1: "below (length h1) ol" using below_mono[OF bol le] .
    have bfi1: "below (length h1) fi" using below_mono[OF bfi le] .
    have b2: "bounded (length h1) g2"
    proof (cases "ol = None")
      case True
      then show ?thesis using e b1 by simp
    next
      case False
      then have "add_edge g1 ol i_first = Inr g2" using e by simp
      then show ?thesis using add_edge_bounded b1 bol1 bif by blast
    qed
    have "below (length h1) (if fi = None then i_first else fi)"
      using bif bfi1 by simp
    then show ?thesis using IH b2 bil by blast
  qed
  then show ?case using pre by blast
qed

lemma ast_to_cfg_IfE:
  assumes "ast_to_cfg (h, g) (If c t f) = Inr r"
  obtains g1 h4 g2 tf tl g3 g4 g5 g6 g7 g8 g9 h7 g17 g18 where
    "add_node g (Some (Suc (length h))) = Inr g1"
    and "ast_to_cfg (h @ [IfStart, IfEnd, IfGuard c], g1) t = Inr ((h4, g2), (tf, tl))"
    and "add_node g2 (Some (length h)) = Inr g3"
    and "add_node g3 (Some (Suc (Suc (length h)))) = Inr g4"
    and "add_node g4 tf = Inr g5"
    and "add_node g5 tl = Inr g6"
    and "add_edge g6 (Some (length h)) (Some (Suc (Suc (length h)))) = Inr g7"
    and "add_edge g7 (Some (Suc (Suc (length h)))) tf = Inr g8"
    and "add_edge g8 tl (Some (Suc (length h))) = Inr g9"
    and "f = None \<longrightarrow> h7 = h4 \<and> g17 = g9"
    and "\<forall>e. f = Some e \<longrightarrow> (\<exists>g10 g11 g12 ff fl g13 g14 g15.
           add_node g9 (Some (length h4)) = Inr g10 \<and>
           add_edge g10 (Some (length h)) (Some (length h4)) = Inr g11 \<and>
           ast_to_cfg (h4 @ [IfGuard (Other ''UnaryOp:!'' [c])], g11) e = Inr ((h7, g12), (ff, fl)) \<and>
           add_node g12 ff = Inr g13 \<and>
           add_node g13 fl = Inr g14 \<and>
           add_edge g14 (Some (length h4)) ff = Inr g15 \<and>
           add_edge g15 fl (Some (Suc (length h))) = Inr g17)"
    and "add_edge g17 (Some (length h)) (Some (Suc (length h))) = Inr g18"
    and "r = ((h7, g18), (Some (length h), Some (Suc (length h))))"
proof (cases f)
  case None
  with assms that show ?thesis
    by (auto simp: bind_Inr alloc_def Let_def split: prod.splits)
next
  case (Some e)
  with assms that show ?thesis
    by (auto simp: bind_Inr alloc_def Let_def split: prod.splits)
qed

lemma leaf_step_ok:
  assumes "(let (h1, v) = alloc h (Stmt n)
            in bind (add_node g (Some v)) (\<lambda>g1. Inr ((h1, g1), (Some v, Some v)))) = Inr r"
  shows "step_ok (h, g) r"
proof -
  from assms obtain g1 where
    s1: "add_node g (Some (length h)) = Inr g1"
    and r: "r = ((h @ [Stmt n], g1), (Some (length h), Some (length h)))"
    by (auto simp: bind_Inr alloc_def)
  have "bounded (Suc (length h)) g1" if bg: "bounded (length h) g"
  proof -
    have "bounded (Suc (length h)) g" using bg by (rule bounded_mono) simp
    from add_node_bounded[OF s1 this] show ?thesis by simp
  qed
  then show ?thesis unfolding r by (intro step_okI[where hs="[Stmt n]"]) simp_all
qed

lemma ast_to_cfg_step_ok: "ast_to_cfg st n = Inr r \<Longrightarrow> step_ok st r"
proof (induction n arbitrary: st r)
  case (Compound items)
  obtain h g where st: "st = (h, g)" by (cases st)
  obtain h' g' a b where r: "r = ((h', g'), (a, b))" by (cases r) auto
  from Compound.prems have "ast_to_cfg_items (h, g) None None items = Inr ((h', g'), (a, b))"
    by (simp add: st r)
  from ast_to_cfg_items_step_ok[OF _ this] Compound.IH
  show ?case unfolding st r by (intro step_okI[where hs="drop (length h) h'"]) auto
next
  case (While c s)
  obtain h g where st: "st = (h, g)" by (cases st)
  from While.prems obtain h1 g1 bf bl g2 g3 g4 g5 where
    body: "ast_to_cfg (h, g) s = Inr ((h1, g1), (bf, bl))"
    and s2: "add_node g1 (Some (length h1)) = Inr g2"
    and s3: "add_edge g2 (Some (length h1)) bf = Inr g3"
    and s4: "add_edge g3 bl (Some (Suc (length h1))) = Inr g4"
    and s5: "add_edge g4 (Some (length h1)) (Some (Suc (length h1))) = Inr g5"
    and r: "r = ((h1 @ [WhileGuard c, WhileEnd], g5), (Some (length h1), Some (Suc (length h1))))"
    by (auto simp: st bind_Inr alloc_def Let_def split: prod.splits)
  have ok: "step_ok (h, g) ((h1, g1), (bf, bl))" using While.IH(2)[OF body] .
  from step_okD(1)[OF ok] obtain hs1 where hs1: "h1 = h @ hs1" ..
  let ?n = "Suc (Suc (length h1))"
  have "bounded ?n g5" if bg: "bounded (length h) g"
  proof -
    have b1: "bounded ?n g1" using step_okD(2)[OF ok bg] by (rule bounded_mono) simp
    have bf: "below ?n bf" using step_okD(3)[OF ok bg] by (rule below_mono) simp
    have bl: "below ?n bl" using step_okD(4)[OF ok bg] by (rule below_mono) simp
    have b2: "bounded ?n g2" using add_node_bounded[OF s2 b1] by simp
    have b3: "bounded ?n g3" using add_edge_bounded[OF s3 b2 _ bf] by simp
    have b4: "bounded ?n g4" using add_edge_bounded[OF s4 b3 bl] by simp
    show ?thesis using add_edge_bounded[OF s5 b4] by simp
  qed
  then show ?case unfolding st r
    by (intro step_okI[where hs="hs1 @ [WhileGuard c, WhileEnd]"]) (simp_all add: hs1)
next
  case (FuncDef d bd)
  obtain h g where st: "st = (h, g)" by (cases st)
  from FuncDef.prems obtain h1 g1 bf bl g2 g3 g4 where
    body: "ast_to_cfg (h, g) bd = Inr ((h1, g1), (bf, bl))"
    and s2: "add_node g1 (Some (length h1)) = Inr g2"
    and s3: "add_edge g2 (Some (length h1)) bf = Inr g3"
    and s4: "add_edge g3 bl (Some (Suc (length h1))) = Inr g4"
    and r: "r = ((h1 @ [FuncDefGuard d, FuncDefEnd], g4), (Some (length h1), Some (Suc (length h1))))"
    by (auto simp: st bind_Inr alloc_def Let_def split: prod.splits)
  have ok: "step_ok (h, g) ((h1, g1), (bf, bl))" using FuncDef.IH(2)[OF body] .
  from step_okD(1)[OF ok] obtain hs1 where hs1: "h1 = h @ hs1" ..
  let ?n = "Suc (Suc (length h1))"
  have "bounded ?n g4" if bg: "bounded (length h) g"
  proof -
    have b1: "bounded ?n g1" using step_okD(2)[OF ok bg] by (rule bounded_mono) simp
    have bf: "below ?n bf" using step_okD(3)[OF ok bg] by (rule below_mono) simp
    have bl: "below ?n bl" using step_okD(4)[OF ok bg] by (rule below_mono) simp
    have b2: "bounded ?n g2" using add_node_bounded[OF s2 b1] by simp
    have b3: "bounded ?n g3" using add_edge_bounded[OF s3 b2 _ bf] by simp
    show ?thesis using add_edge_bounded[OF s4 b3 bl] by simp
  qed
  then show ?case unfolding st r
    by (intro step_okI[where hs="hs1 @ [FuncDefGuard d, FuncDefEnd]"]) (simp_all add: hs1)
next
  case (If c t f)
  obtain h g where st: "st = (h, g)" by (cases st)
  let ?first = "length h" and ?last = "Suc (length h)" and ?tbf = "Suc (Suc (length h))"
  let ?h3 = "h @ [IfStart, IfEnd, IfGuard c]"
  from If.prems[unfolded st] obtain g1 h4 g2 tf tl g3 g4 g5 g6 g7 g8 g9 h7 g17 g18 where
    s1: "add_node g (Some ?last) = Inr g1"
    and tr: "ast_to_cfg (?h3, g1) t = Inr ((h4, g2), (tf, tl))"
    and s3: "add_node g2 (Some ?first) = Inr g3"
    and s4: "add_node g3 (Some ?tbf) = Inr g4"
    and s5: "add_node g4 tf = Inr g5"
    and s6: "add_node g5 tl = Inr g6"
    and s7: "add_edge g6 (Some ?first) (Some ?tbf) = Inr g7"
    and s8: "add_edge g7 (Some ?tbf) tf = Inr g8"
    and s9: "add_edge g8 tl (Some ?last) = Inr g9"
    and fN: "f = None \<longrightarrow> h7 = h4 \<and> g17 = g9"
    and fS: "\<forall>e. f = Some e \<longrightarrow> (\<exists>g10 g11 g12 ff fl g13 g14 g15.
           add_node g9 (Some (length h4)) = Inr g10 \<and>
           add_edge g10 (Some (length h)) (Some (length h4)) = Inr g11 \<and>
           ast_to_cfg (h4 @ [IfGuard (Other ''UnaryOp:!'' [c])], g11) e = Inr ((h7, g12), (ff, fl)) \<and>
           add_node g12 ff = Inr g13 \<and>
           add_node g13 fl = Inr g14 \<and>
           add_edge g14 (Some (length h4)) ff = Inr g15 \<and>
           add_edge g15 fl (Some (Suc (length h))) = Inr g17)"
    and s18: "add_edge g17 (Some ?first) (Some ?last) = Inr g18"
    and r: "r = ((h7, g18), (Some ?first, Some ?last))"
    by (rule ast_to_cfg_IfE) blast
  have okt: "step_ok (?h3, g1) ((h4, g2), (tf, tl))" using If.IH(2)[OF tr] .
  from step_okD(1)[OF okt] obtain hs4 where hs4: "h4 = ?h3 @ hs4" ..
  have lt4: "?first < length h4" "?last < length h4" "?tbf < length h4"
    by (simp_all add: hs4)
  have b9: "bounded (length h4) g9" if bg: "bounded (length h) g"
  proof -
    have "bounded (length ?h3) g" using bg by (rule bounded_mono) simp
    from add_node_bounded[OF s1 this] have b1: "bounded (length ?h3) g1" by simp
    have b2: "bounded (length h4) g2" using step_okD(2)[OF okt b1] .
    have btf: "below (length h4) tf" using step_okD(3)[OF okt b1] .
    have btl: "below (length h4) tl" using step_okD(4)[OF okt b1] .
    have b3: "bounded (length h4) g3" using add_node_bounded[OF s3 b2] lt4 by simp
    have b4: "bounded (length h4) g4" using add_node_bounded[OF s4 b3] lt4 by simp
    have b5: "bounded (length h4) g5" using add_node_bounded[OF s5 b4 btf] .
    have b6: "bounded (length h4) g6" using add_node_bounded[OF s6 b5 btl] .
    have b7: "bounded (length h4) g7" using add_edge_bounded[OF s7 b6] lt4 by simp
    have b8: "bounded (length h4) g8" using add_edge_bounded[OF s8 b7 _ btf] lt4 by simp
    show ?thesis using add_edge_bounded[OF s9 b8 btl] lt4 by simp
  qed
  have fbok: "(\<exists>hs. h7 = h4 @ hs) \<and> (bounded (length h) g \<longrightarrow> bounded (length h7) g17)"
  proof (cases f)
    case None
    then show ?thesis using fN b9 by simp
  next
    case (Some e)
    let ?fbf = "length h4"
    let ?h5 = "h4 @ [IfGuard (Other ''UnaryOp:!'' [c])]"
    from fS Some obtain g10 g11 g12 ff fl g13 g14 g15 where
      t10: "add_node g9 (Some ?fbf) = Inr g10"
      and t11: "add_edge g10 (Some ?first) (Some ?fbf) = Inr g11"
      and fr: "ast_to_cfg (?h5, g11) e = Inr ((h7, g12), (ff, fl))"
      and t13: "add_node g12 ff = Inr g13"
      and t14: "add_node g13 fl = Inr g14"
      and t15: "add_edge g14 (Some ?fbf) ff = Inr g15"
      and t16: "add_edge g15 fl (Some ?last) = Inr g17"
      by blast
    have oke: "step_ok (?h5, g11) ((h7, g12), (ff, fl))"
      using If.IH(3)[OF _ fr] Some by simp
    from step_okD(1)[OF oke] obtain hs7 where hs7: "h7 = ?h5 @ hs7" ..
    have lt7: "?first < length h7" "?last < length h7" "?fbf < length h7"
      using lt4 by (simp_all add: hs7)
    have "bounded (length h7) g17" if bg: "bounded (length h) g"
    proof -
      have "bounded (length ?h5) g9" using b9[OF bg] by (rule bounded_mono) simp
      from add_node_bounded[OF t10 this] have b10: "bounded (length ?h5) g10" by simp
      have b11: "bounded (length ?h5) g11" using add_edge_bounded[OF t11 b10] lt4 by simp
      have b12: "bounded (length h7) g12" using step_okD(2)[OF oke b11] .
      have bff: "below (length h7) ff" using step_okD(3)[OF oke b11] .
      have bfl: "below (length h7) fl" using step_okD(4)[OF oke b11] .
      have b13: "bounded (length h7) g13" using add_node_bounded[OF t13 b12 bff] .
      have b14: "bounded (length h7) g14" using add_node_bounded[OF t14 b13 bfl] .
      have b15: "bounded (length h7) g15" using add_edge_bounded[OF t15 b14 _ bff] lt7 by simp
      show ?thesis using add_edge_bounded[OF t16 b15 bfl] lt7 by simp
    qed
    then show ?thesis using hs7 by simp
  qed
  then obtain hs7 where hs7: "h7 = h4 @ hs7" by blast
  have lt7: "?first < length h7" "?last < length h7" using lt4 by (simp_all add: hs7)
  have "bounded (length h7) g18" if bg: "bounded (length h) g"
  proof -
    have "bounded (length h7) g17" using fbok bg by blast
    from add_edge_bounded[OF s18 this] lt7 show ?thesis by simp
  qed
  then show ?case unfolding st r
    by (intro step_okI[where hs="[IfStart, IfEnd, IfGuard c] @ hs4 @ hs7"])
       (simp_all add: hs4 hs7 lt7[unfolded hs7 hs4])
next
  case (FileAST xs)
  from FileAST.prems show ?case by (cases st) (simp add: leaf_step_ok)
next
  case EmptyCompound
  from EmptyCompound.prems show ?case by (cases st) simp
next
  case Continue
  from Continue.prems show ?case by (cases st) (simp add: leaf_step_ok)
next
  case (Assignment x1 x2 x3)
  from Assignment.prems show ?case by (cases st) (simp add: leaf_step_ok)
next
  case (Decl x1 x2 x3)
  from Decl.prems show ?case by (cases st) (simp add: leaf_step_ok)
next
  case (TypeDecl x1 x2)
  from TypeDecl.prems show ?case by (cases st) (simp add: leaf_step_ok)
next
  case (PtrDecl x)
  from PtrDecl.prems show ?case by (cases st) (simp add: leaf_step_ok)
next
  case (Enum x1 x2)
  from Enum.prems show ?case by (cases st) (simp add: leaf_step_ok)
next
  case (ID x)
  from ID.prems show ?case by (cases st) (simp add: leaf_step_ok)
next
  case (Other x1 x2)
  from Other.prems show ?case by (cases st) (simp add: leaf_step_ok)
qed

subsection \<open>When the translation returns\<close>

text \<open>
  The translation raises on a \<open>Compound\<close> without statements (a \<open>TypeError\<close> when
  \<open>block_items\<close> is \<open>None\<close>, a \<open>ValueError\<close> when the empty region \<open>(None, None)\<close>
  reaches \<open>add_node\<close> or \<open>add_edge\<close>). On a tree whose blocks all have statements
  it returns a region of two vertices.
\<close>

fun nonempty_blocks :: "node \<Rightarrow> bool" where
  "nonempty_blocks (If c t f) =
     (nonempty_blocks t \<and> (case f of None \<Rightarrow> True | Some e \<Rightarrow> nonempty_blocks e))"
| "nonempty_blocks (While c s) = nonempty_blocks s"
| "nonempty_blocks (Compound items) = (items \<noteq> [] \<and> list_all nonempty_blocks items)"
| "nonempty_blocks EmptyCompound = False"
| "nonempty_blocks (FuncDef d b) = nonempty_blocks b"
| "nonempty_blocks n = True"

definition returns_region :: "node \<Rightarrow> bool" where
  "returns_region n \<longleftrightarrow> (\<forall>st. \<exists>st' a b. ast_to_cfg st n = Inr (st', (Some a, Some b)))"

lemma ast_to_cfg_items_returns:
  assumes "\<And>x. x \<in> set ns \<Longrightarrow> returns_region x"
  shows "\<exists>st' a b. ast_to_cfg_items st fi ol ns = Inr (st', (a, b)) \<and>
           (fi \<noteq> None \<or> ns \<noteq> [] \<longrightarrow> a \<noteq> None) \<and> (ol \<noteq> None \<or> ns \<noteq> [] \<longrightarrow> b \<noteq> None)"
  using assms
proof (induction ns arbitrary: st fi ol)
  case Nil
  then show ?case by (cases st) simp
next
  case (Cons i items)
  obtain h g where st: "st = (h, g)" by (cases st)
  from Cons.prems[of i] obtain h1 g1 x y where
    it: "ast_to_cfg (h, g) i = Inr ((h1, g1), (Some x, Some y))"
    unfolding returns_region_def by (metis list.set_intros(1) surj_pair)
  obtain g2 where e: "(if ol \<noteq> None then add_edge g1 ol (Some x) else Inr g1) = Inr g2"
    by (cases ol) (simp_all add: add_edge_def)
  have "\<And>x. x \<in> set items \<Longrightarrow> returns_region x" using Cons.prems by simp
  from Cons.IH[OF this, of "(h1, g2)" "if fi = None then Some x else fi" "Some y"]
  obtain st' a b where
    "ast_to_cfg_items (h1, g2) (if fi = None then Some x else fi) (Some y) items = Inr (st', (a, b))"
    "a \<noteq> None" "b \<noteq> None"
    by (cases "fi = None") auto
  then show ?case using it e by (simp add: st bind_def)
qed

lemma nonempty_blocks_returns: "nonempty_blocks n \<Longrightarrow> returns_region n"
proof (induction n)
  case (Compound items)
  then have el: "\<And>x. x \<in> set items \<Longrightarrow> returns_region x" and ne: "items \<noteq> []"
    by (simp_all add: list_all_iff)
  have "\<exists>st' a b. ast_to_cfg (h, g) (Compound items) = Inr (st', (Some a, Some b))" for h g
    using ast_to_cfg_items_returns[where ns=items and st="(h, g)" and fi=None and ol=None] el ne
    by auto
  then show ?case unfolding returns_region_def by auto
next
  case (If c t f)
  have rt: "returns_region t" using If by simp
  have "\<exists>st' a b. ast_to_cfg (h, g) (If c t f) = Inr (st', (Some a, Some b))" for h g
  proof -
    obtain g1 where g1: "add_node g (Some (Suc (length h))) = Inr g1"
      by (simp add: add_node_def)
    from rt obtain h4 g2 tf tl where
      tr: "ast_to_cfg (h @ [IfStart, IfEnd, IfGuard c], g1) t = Inr ((h4, g2), (Some tf, Some tl))"
      unfolding returns_region_def by (metis surj_pair)
    show ?thesis
    proof (cases f)
      case None
      then show ?thesis using g1 tr
        by (simp add: alloc_def bind_def add_node_def add_edge_def)
    next
      case (Some e)
      then have "returns_region e" using If by simp
      then have "\<forall>st. \<exists>r. ast_to_cfg st e = Inr (fst r, (Some (fst (snd r)), Some (snd (snd r))))"
        unfolding returns_region_def by (metis fst_conv snd_conv)
      then obtain F where F: "\<And>st. ast_to_cfg st e = Inr (fst (F st), (Some (fst (snd (F st))), Some (snd (snd (F st)))))"
        using choice[of "\<lambda>st r. ast_to_cfg st e = Inr (fst r, (Some (fst (snd r)), Some (snd (snd r))))"]
        by blast
      show ?thesis using g1 tr Some
        by (simp add: alloc_def bind_def add_node_def add_edge_def F split_beta)
    qed
  qed
  then show ?case unfolding returns_region_def by auto
next
  case (While c s)
  then have rs: "returns_region s" by simp
  have "\<exists>st' a b. ast_to_cfg (h, g) (While c s) = Inr (st', (Some a, Some b))" for h g
  proof -
    from rs obtain h1 g1 bf bl where
      "ast_to_cfg (h, g) s = Inr ((h1, g1), (Some bf, Some bl))"
      unfolding returns_region_def by (metis surj_pair)
    then show ?thesis
      by (simp add: alloc_def bind_def add_node_def add_edge_def)
  qed
  then show ?case unfolding returns_region_def by auto
next
  case (FuncDef d b)
  then have rs: "returns_region b" by simp
  have "\<exists>st' x y. ast_to_cfg (h, g) (FuncDef d b) = Inr (st', (Some x, Some y))" for h g
  proof -
    from rs obtain h1 g1 bf bl where
      "ast_to_cfg (h, g) b = Inr ((h1, g1), (Some bf, Some bl))"
      unfolding returns_region_def by (metis surj_pair)
    then show ?thesis
      by (simp add: alloc_def bind_def add_node_def add_edge_def)
  qed
  then show ?case unfolding returns_region_def by auto
qed (simp_all add: returns_region_def alloc_def add_node_def bind_def)

section \<open>Claims about the graph builder\<close>

text \<open>
  C6. For every \<open>If\<close> node the translation adds an edge from the entry marker
  (\<open>IfStart\<close>) to the exit marker (\<open>IfEnd\<close>), with or without a false branch:
  whenever the translation of an \<open>If\<close> returns, its region is the pair of the two
  markers, allocated first, and the returned graph has the edge between them; and
  it does return on every \<open>If\<close> whose blocks all have statements.
\<close>

theorem conditional_entry_exit_edge:
  "(\<forall>h' g' a b. ast_to_cfg (h, g) (If c t f) = Inr ((h', g'), (a, b)) \<longrightarrow>
      a = Some (length h) \<and> b = Some (Suc (length h)) \<and>
      h' ! length h = IfStart \<and> h' ! Suc (length h) = IfEnd \<and>
      (length h, Suc (length h)) \<in> set (gedges g')) \<and>
   (nonempty_blocks (If c t f) \<longrightarrow> (\<exists>r. ast_to_cfg (h, g) (If c t f) = Inr r))"
proof (intro conjI allI impI)
  fix h' g' a b
  assume run: "ast_to_cfg (h, g) (If c t f) = Inr ((h', g'), (a, b))"
  from run obtain g1 h4 g2 tf tl g17 where
    tr: "ast_to_cfg (h @ [IfStart, IfEnd, IfGuard c], g1) t = Inr ((h4, g2), (tf, tl))"
    and fN: "f = None \<longrightarrow> h' = h4"
    and fS: "\<forall>e. f = Some e \<longrightarrow> (\<exists>g11 g12 ff fl.
           ast_to_cfg (h4 @ [IfGuard (Other ''UnaryOp:!'' [c])], g11) e = Inr ((h', g12), (ff, fl)))"
    and s18: "add_edge g17 (Some (length h)) (Some (Suc (length h))) = Inr g'"
    and ab: "a = Some (length h)" "b = Some (Suc (length h))"
    by (rule ast_to_cfg_IfE) blast
  show "a = Some (length h)" "b = Some (Suc (length h))" by (rule ab)+
  show "(length h, Suc (length h)) \<in> set (gedges g')"
    using s18 by (auto simp: add_edge_Inr)
  from step_okD(1)[OF ast_to_cfg_step_ok[OF tr]] obtain hs4 where
    hs4: "h4 = (h @ [IfStart, IfEnd, IfGuard c]) @ hs4" ..
  have "\<exists>hs. h' = h4 @ hs"
  proof (cases f)
    case None
    then show ?thesis using fN by simp
  next
    case (Some e)
    with fS obtain g11 g12 ff fl where
      "ast_to_cfg (h4 @ [IfGuard (Other ''UnaryOp:!'' [c])], g11) e = Inr ((h', g12), (ff, fl))"
      by blast
    from step_okD(1)[OF ast_to_cfg_step_ok[OF this]] show ?thesis by auto
  qed
  then obtain hs where "h' = h @ [IfStart, IfEnd, IfGuard c] @ hs4 @ hs"
    using hs4 by auto
  then show "h' ! length h = IfStart" "h' ! Suc (length h) = IfEnd"
    by (simp_all add: nth_append)
next
  assume "nonempty_blocks (If c t f)"
  from nonempty_blocks_returns[OF this] show "\<exists>r. ast_to_cfg (h, g) (If c t f) = Inr r"
    unfolding returns_region_def by blast
qed

theorem conditional_entry_exit_edge_witness:
  "nonempty_blocks (If (ID ''c'') (Compound [Continue]) (Some (Compound [Continue]))) \<and>
   ast_to_cfg ([], empty_graph) (If (ID ''c'') (Compound [Continue]) (Some (Compound [Continue]))) =
     Inr (([IfStart, IfEnd, IfGuard (ID ''c''), Stmt Continue,
            IfGuard (Other ''UnaryOp:!'' [ID ''c'']), Stmt Continue],
           \<lparr>gnodes = [1, 3, 0, 2, 4, 5],
              gedges = [(0, 2), (2, 3), (3, 1), (0, 4), (4, 5), (5, 1), (0, 1)]\<rparr>),
          (Some 0, Some 1)) \<and>
   (0, 1) \<in> set (gedges \<lparr>gnodes = [1, 3, 0, 2, 4, 5],
              gedges = [(0, 2), (2, 3), (3, 1), (0, 4), (4, 5), (5, 1), (0::nat, 1::nat)]\<rparr>)"
proof -
  have run: "ast_to_cfg ([], empty_graph)
               (If (ID ''c'') (Compound [Continue]) (Some (Compound [Continue]))) =
     Inr (([IfStart, IfEnd, IfGuard (ID ''c''), Stmt Continue,
            IfGuard (Other ''UnaryOp:!'' [ID ''c'']), Stmt Continue],
           \<lparr>gnodes = [1, 3, 0, 2, 4, 5],
              gedges = [(0, 2), (2, 3), (3, 1), (0, 4), (4, 5), (5, 1), (0, 1)]\<rparr>),
          (Some 0, Some 1))"
    by (simp add: cfg_eval cong: bind_weak_cong)
  have ne: "nonempty_blocks (If (ID ''c'') (Compound [Continue]) (Some (Compound [Continue])))"
    by simp
  from conditional_entry_exit_edge
         [of "[]" empty_graph "ID ''c''" "Compound [Continue]" "Some (Compound [Continue])"] run
  have "(0, 1) \<in> set (gedges \<lparr>gnodes = [1, 3, 0, 2, 4, 5],
              gedges = [(0, 2), (2, 3), (3, 1), (0, 4), (4, 5), (5, 1), (0::nat, 1::nat)]\<rparr>)"
    by simp
  with run ne show ?thesis by blast
qed

text \<open>
  C7. For a \<open>While\<close> node whose body translates to the region \<open>(bf, bl)\<close>, the
  translation returns the region of a new guard and a new \<open>WhileEnd\<close> marker and adds
  exactly the three edges guard to \<open>bf\<close>, \<open>bl\<close> to marker and guard to marker; no edge
  of the result enters the guard, so there is no back-edge from \<open>bl\<close> or from the
  marker. The graph passed in holds allocated objects only (\<open>bounded\<close>).
\<close>

theorem loop_edges_no_back_edge:
  assumes bg: "bounded (length h) g"
    and body: "ast_to_cfg (h, g) s = Inr ((h1, g1), (Some bf, Some bl))"
  shows "\<exists>g5. ast_to_cfg (h, g) (While c s) =
             Inr ((h1 @ [WhileGuard c, WhileEnd], g5), (Some (length h1), Some (Suc (length h1)))) \<and>
           gedges g5 = gedges g1 @
             [(length h1, bf), (bl, Suc (length h1)), (length h1, Suc (length h1))] \<and>
           (\<forall>u. (u, length h1) \<notin> set (gedges g5))"
proof -
  have ok: "step_ok (h, g) ((h1, g1), (Some bf, Some bl))"
    using ast_to_cfg_step_ok[OF body] .
  have b1: "bounded (length h1) g1" using step_okD(2)[OF ok bg] .
  have bf: "bf < length h1" using step_okD(3)[OF ok bg] by simp
  have bl: "bl < length h1" using step_okD(4)[OF ok bg] by simp
  have fresh: "\<And>u v. (u, v) \<in> set (gedges g1) \<Longrightarrow> u < length h1 \<and> v < length h1"
    using b1 by (fastforce simp: bounded_def)
  let ?G = "length h1" and ?L = "Suc (length h1)"
  have n1: "(?G, bf) \<notin> set (gedges g1)" using fresh[of ?G bf] by auto
  have n2: "(bl, ?L) \<notin> set (gedges g1 @ [(?G, bf)])" using fresh[of bl ?L] bl by auto
  have n3: "(?G, ?L) \<notin> set (gedges g1 @ [(?G, bf), (bl, ?L)])"
    using fresh[of ?G ?L] bf bl by auto
  let ?g5 = "g1\<lparr>gnodes := insert_new ?L (insert_new ?G (insert_new ?L (insert_new bl
                 (insert_new bf (insert_new ?G (insert_new ?G (gnodes g1))))))),
               gedges := gedges g1 @ [(?G, bf), (bl, ?L), (?G, ?L)]\<rparr>"
  have run: "ast_to_cfg (h, g) (While c s) =
             Inr ((h1 @ [WhileGuard c, WhileEnd], ?g5), (Some ?G, Some ?L))"
    using body n1 n2 n3
    by (simp add: alloc_def bind_def add_node_def add_edge_def insert_new_def)
  have "(u, ?G) \<notin> set (gedges ?g5)" for u
    using fresh[of u ?G] bf by auto
  then have "\<forall>u. (u, ?G) \<notin> set (gedges ?g5)" ..
  with run show ?thesis by (intro exI[of _ ?g5]) simp
qed

theorem loop_edges_no_back_edge_witness:
  "bounded (length []) empty_graph \<and>
   ast_to_cfg ([], empty_graph) (Compound [Continue, Assignment ''='' (ID ''x'') (ID ''y'')]) =
     Inr (([Stmt Continue, Stmt (Assignment ''='' (ID ''x'') (ID ''y''))],
           \<lparr>gnodes = [0, 1], gedges = [(0, 1)]\<rparr>), (Some 0, Some 1)) \<and>
   ast_to_cfg ([], empty_graph)
       (While (ID ''c'') (Compound [Continue, Assignment ''='' (ID ''x'') (ID ''y'')])) =
     Inr (([Stmt Continue, Stmt (Assignment ''='' (ID ''x'') (ID ''y'')),
            WhileGuard (ID ''c''), WhileEnd],
           \<lparr>gnodes = [0, 1, 2, 3], gedges = [(0, 1), (2, 0), (1, 3), (2, 3)]\<rparr>),
          (Some 2, Some 3))"
proof -
  have b: "bounded (length []) empty_graph"
    by (simp add: bounded_def empty_graph_def)
  have body: "ast_to_cfg ([], empty_graph)
                (Compound [Continue, Assignment ''='' (ID ''x'') (ID ''y'')]) =
     Inr (([Stmt Continue, Stmt (Assignment ''='' (ID ''x'') (ID ''y''))],
           \<lparr>gnodes = [0, 1], gedges = [(0, 1)]\<rparr>), (Some 0, Some 1))"
    by (simp add: cfg_eval cong: bind_weak_cong)
  from loop_edges_no_back_edge[OF b body, of "ID ''c''"] obtain g5 where
    run: "ast_to_cfg ([], empty_graph)
            (While (ID ''c'') (Compound [Continue, Assignment ''='' (ID ''x'') (ID ''y'')])) =
          Inr (([Stmt Continue, Stmt (Assignment ''='' (ID ''x'') (ID ''y''))] @
                  [WhileGuard (ID ''c''), WhileEnd], g5), (Some 2, Some 3))"
    and e: "gedges g5 = [(0, 1), (2, 0), (1, 3), (2, 3)]"
    by auto
  have run': "ast_to_cfg ([], empty_graph)
       (While (ID ''c'') (Compound [Continue, Assignment ''='' (ID ''x'') (ID ''y'')])) =
     Inr (([Stmt Continue, Stmt (Assignment ''='' (ID ''x'') (ID ''y'')),
            WhileGuard (ID ''c''), WhileEnd],
           \<lparr>gnodes = [0, 1, 2, 3], gedges = [(0, 1), (2, 0), (1, 3), (2, 3)]\<rparr>),
          (Some 2, Some 3))"
    by (simp add: cfg_eval cong: bind_weak_cong)
  from b body run' show ?thesis by blast
qed

section \<open>Region utilities: the subgraph between two vertices\<close>

text \<open>
  \<open>get_subgraph_between_nodes(self, start, end)\<close>. The two Python sets \<open>nodes\<close> and
  \<open>to_visit\<close> are sets; the order in which the \<open>for\<close> loop meets the elements of
  \<open>current_visit\<close> is not fixed by Python, so it is the parameter \<open>ord\<close>, any
  function that lists a finite set without repetition (\<open>enumerates\<close>).
  \<open>visit_pass\<close> is one run of the \<open>for\<close> loop over that list: \<open>to_visit.remove(tv)\<close>
  (a \<open>KeyError\<close> when \<open>tv\<close> is absent), then, unless \<open>tv\<close> is \<open>end\<close>, every successor
  is added to both sets (\<open>self.successors\<close> raises \<open>NetworkXError\<close> on a vertex that is
  not in the graph). \<open>visit_loop\<close> is the \<open>while\<close> loop; it may run forever, and then
  its value is \<open>None\<close>. \<open>wf_graph\<close> is the library's invariant that both ends of an
  edge are vertices of the graph.
\<close>

definition wf_graph :: "digraph \<Rightarrow> bool" where
  "wf_graph g \<longleftrightarrow>
     list_all (\<lambda>e. fst e \<in> set (gnodes g) \<and> snd e \<in> set (gnodes g)) (gedges g)"

definition enumerates :: "(vertex set \<Rightarrow> vertex list) \<Rightarrow> bool" where
  "enumerates ord \<longleftrightarrow> (\<forall>S. finite S \<longrightarrow> set (ord S) = S \<and> distinct (ord S))"

fun add_successors :: "vertex list \<Rightarrow> vertex set \<times> vertex set \<Rightarrow> vertex set \<times> vertex set" where
  "add_successors [] (nodes, to_visit) = (nodes, to_visit)"
| "add_successors (s # ss) (nodes, to_visit) = add_successors ss (insert s nodes, insert s to_visit)"

fun visit_pass ::
  "digraph \<Rightarrow> vertex \<Rightarrow> vertex list \<Rightarrow> vertex set \<times> vertex set \<Rightarrow>
     error + (vertex set \<times> vertex set)" where
  "visit_pass g end_v [] (nodes, to_visit) = Inr (nodes, to_visit)"
| "visit_pass g end_v (tv # rest) (nodes, to_visit) =
     (if tv \<notin> to_visit then Inl KeyError
      else if tv \<noteq> end_v then
        (if tv \<in> set (gnodes g)
         then visit_pass g end_v rest (add_successors (successors g tv) (nodes, to_visit - {tv}))
         else Inl NetworkXError)
      else visit_pass g end_v rest (nodes, to_visit - {tv}))"

partial_function (option) visit_loop ::
  "(vertex set \<Rightarrow> vertex list) \<Rightarrow> digraph \<Rightarrow> vertex \<Rightarrow> vertex set \<Rightarrow> vertex set \<Rightarrow>
     (error + vertex set) option" where
  "visit_loop ord g end_v nodes to_visit =
     (if to_visit = {} then Some (Inr nodes)
      else case visit_pass g end_v (ord to_visit) (nodes, to_visit) of
             Inl err \<Rightarrow> Some (Inl err)
           | Inr (nodes', to_visit') \<Rightarrow> visit_loop ord g end_v nodes' to_visit')"

definition subgraph :: "digraph \<Rightarrow> vertex set \<Rightarrow> digraph" where
  "subgraph g ns =
     \<lparr>gnodes = filter (\<lambda>v. v \<in> ns) (gnodes g),
      gedges = filter (\<lambda>e. fst e \<in> ns \<and> snd e \<in> ns) (gedges g)\<rparr>"

definition get_subgraph_between_nodes ::
  "(vertex set \<Rightarrow> vertex list) \<Rightarrow> digraph \<Rightarrow> vertex \<Rightarrow> vertex \<Rightarrow> (error + digraph) option" where
  "get_subgraph_between_nodes ord g start end_v =
     (case visit_loop ord g end_v {start} {start} of
        None \<Rightarrow> None
      | Some (Inl err) \<Rightarrow> Some (Inl err)
      | Some (Inr nodes) \<Rightarrow> Some (Inr (subgraph g (insert end_v nodes))))"

subsection \<open>One pass of the search\<close>

definition edges_avoiding :: "digraph \<Rightarrow> vertex \<Rightarrow> (vertex \<times> vertex) set" where
  "edges_avoiding g end_v = {(u, v). (u, v) \<in> set (gedges g) \<and> u \<noteq> end_v}"

definition expanded :: "digraph \<Rightarrow> vertex \<Rightarrow> vertex list \<Rightarrow> vertex set" where
  "expanded g end_v rest = edges_avoiding g end_v `` set rest"

lemma add_successors_eq: "add_successors ss (N, T) = (N \<union> set ss, T \<union> set ss)"
  by (induction ss arbitrary: N T) auto

lemma set_successors: "set (successors g v) = set (gedges g) `` {v}"
  by (force simp: successors_def)

lemma expanded_Nil [simp]: "expanded g end_v [] = {}"
  by (simp add: expanded_def)

lemma expanded_Cons:
  "expanded g end_v (tv # rest) =
     (if tv \<noteq> end_v then set (successors g tv) else {}) \<union> expanded g end_v rest"
  by (auto simp: expanded_def edges_avoiding_def set_successors)

lemma visit_pass_bounds:
  "visit_pass g end_v rest (N, T) = Inr (N', T') \<Longrightarrow>
     N' = N \<union> expanded g end_v rest \<and>
     T' \<subseteq> (T - set rest) \<union> expanded g end_v rest \<and>
     (T \<union> expanded g end_v rest) - set rest \<subseteq> T'"
proof (induction rest arbitrary: N T)
  case Nil
  then show ?case by auto
next
  case (Cons tv rest)
  show ?case
  proof (cases "tv = end_v")
    case True
    with Cons.prems have "visit_pass g end_v rest (N, T - {tv}) = Inr (N', T')"
      by (simp split: if_splits)
    from Cons.IH[OF this] True show ?thesis
      by (auto simp: expanded_Cons)
  next
    case False
    with Cons.prems have
      "visit_pass g end_v rest (N \<union> set (successors g tv), (T - {tv}) \<union> set (successors g tv))
         = Inr (N', T')"
      by (simp add: add_successors_eq split: if_splits)
    from Cons.IH[OF this] False show ?thesis
      by (auto simp: expanded_Cons)
  qed
qed

lemma visit_pass_returns:
  assumes "wf_graph g" "distinct rest" "set rest \<subseteq> T" "T \<subseteq> set (gnodes g)"
  shows "\<exists>r. visit_pass g end_v rest (N, T) = Inr r"
  using assms(2-)
proof (induction rest arbitrary: N T)
  case Nil
  then show ?case by simp
next
  case (Cons tv rest)
  have succ_in: "set (successors g tv) \<subseteq> set (gnodes g)"
    using assms(1) by (auto simp: wf_graph_def list_all_iff set_successors)
  have tv: "tv \<in> T" "tv \<in> set (gnodes g)" using Cons.prems by auto
  have d: "distinct rest" "set rest \<subseteq> T - {tv}" using Cons.prems by auto
  show ?case
  proof (cases "tv = end_v")
    case True
    from Cons.IH[OF d(1) d(2), of N] Cons.prems(3) True tv show ?thesis by auto
  next
    case False
    have "set rest \<subseteq> (T - {tv}) \<union> set (successors g tv)" using d(2) by auto
    moreover have "(T - {tv}) \<union> set (successors g tv) \<subseteq> set (gnodes g)"
      using Cons.prems(3) succ_in by auto
    ultimately obtain r where
      "visit_pass g end_v rest (N \<union> set (successors g tv), (T - {tv}) \<union> set (successors g tv)) = Inr r"
      using Cons.IH[OF d(1)] by blast
    then show ?thesis using False tv by (simp add: add_successors_eq)
  qed
qed

lemma visit_pass_keeps:
  assumes C: "\<And>v. v \<in> C \<Longrightarrow> v \<noteq> end_v \<and> (\<exists>u \<in> set (successors g v). u \<in> C)"
  shows "visit_pass g end_v rest (N, T) = Inr (N', T') \<Longrightarrow> T \<inter> C \<noteq> {} \<Longrightarrow> T' \<inter> C \<noteq> {}"
proof (induction rest arbitrary: N T)
  case Nil
  then show ?case by simp
next
  case (Cons tv rest)
  show ?case
  proof (cases "tv = end_v")
    case True
    with Cons.prems(1) have run: "visit_pass g end_v rest (N, T - {tv}) = Inr (N', T')"
      by (simp split: if_splits)
    have "tv \<notin> C" using C True by blast
    then have "(T - {tv}) \<inter> C \<noteq> {}" using Cons.prems(2) by auto
    from Cons.IH[OF run this] show ?thesis .
  next
    case False
    with Cons.prems(1) have run:
      "visit_pass g end_v rest (N \<union> set (successors g tv), (T - {tv}) \<union> set (successors g tv))
         = Inr (N', T')"
      by (simp add: add_successors_eq split: if_splits)
    have "((T - {tv}) \<union> set (successors g tv)) \<inter> C \<noteq> {}"
    proof (cases "tv \<in> C")
      case True
      then obtain u where "u \<in> set (successors g tv)" "u \<in> C" using C by blast
      then show ?thesis by auto
    next
      case False
      then show ?thesis using Cons.prems(2) by auto
    qed
    from Cons.IH[OF run this] show ?thesis .
  qed
qed

lemma expanded_subset: "wf_graph g \<Longrightarrow> expanded g end_v rest \<subseteq> set (gnodes g)"
  by (auto simp: expanded_def edges_avoiding_def wf_graph_def list_all_iff)

lemma visit_loop_terminates:
  assumes ord: "enumerates ord" and acyc: "acyclic (set (gedges g))"
  shows "finite T \<Longrightarrow> \<exists>y. visit_loop ord g end_v N T = Some y"
proof -
  let ?R = "edges_avoiding g end_v"
  have sub: "?R \<subseteq> set (gedges g)" by (auto simp: edges_avoiding_def)
  have "finite ?R" using sub by (rule finite_subset) simp
  moreover have "acyclic ?R" using acyc sub by (rule acyclic_subset)
  ultimately have "wf (?R\<inverse>)" by (rule finite_acyclic_wf_converse)
  then have wf: "wf (max_ext (?R\<inverse>))" by (rule max_ext_wf)
  show "finite T \<Longrightarrow> \<exists>y. visit_loop ord g end_v N T = Some y"
    using wf
  proof (induction T arbitrary: N rule: wf_induct_rule)
    case (less T)
    show ?case
    proof (cases "T = {}")
      case True
      then show ?thesis by (subst visit_loop.simps) simp
    next
      case False
      have en: "set (ord T) = T" using ord less.prems by (simp add: enumerates_def)
      show ?thesis
      proof (cases "visit_pass g end_v (ord T) (N, T)")
        case (Inl err)
        then show ?thesis using False by (subst visit_loop.simps) simp
      next
        case (Inr r)
        obtain N' T' where r: "r = (N', T')" by (cases r)
        from visit_pass_bounds[OF Inr[unfolded r]] en
        have T': "T' \<subseteq> expanded g end_v (ord T)" by auto
        have fin': "finite T'"
          using T' by (rule finite_subset) (simp add: expanded_def finite_Image \<open>finite ?R\<close>)
        have "(T', T) \<in> max_ext (?R\<inverse>)"
        proof (rule max_extI[OF fin' less.prems False])
          fix x assume "x \<in> T'"
          then have "x \<in> ?R `` T" using T' en by (auto simp: expanded_def)
          then show "\<exists>y\<in>T. (x, y) \<in> ?R\<inverse>" by auto
        qed
        from less.IH[OF this fin', of N'] obtain y where
          "visit_loop ord g end_v N' T' = Some y" ..
        then show ?thesis using False Inr r by (subst visit_loop.simps) simp
      qed
    qed
  qed
qed

lemma visit_loop_diverges:
  assumes ord: "enumerates ord" and wfg: "wf_graph g"
    and C: "\<And>v. v \<in> C \<Longrightarrow> v \<noteq> end_v \<and> (\<exists>u \<in> set (successors g v). u \<in> C)"
  shows "finite T \<Longrightarrow> T \<subseteq> set (gnodes g) \<Longrightarrow> T \<inter> C \<noteq> {} \<Longrightarrow>
         visit_loop ord g end_v N T = None"
proof -
  have "visit_loop ord g end_v N T = Some y \<Longrightarrow>
          ord = ord \<longrightarrow> g = g \<longrightarrow> end_v = end_v \<longrightarrow>
          finite T \<longrightarrow> T \<subseteq> set (gnodes g) \<longrightarrow> T \<inter> C \<noteq> {} \<longrightarrow> False" for y
  proof (rule visit_loop.raw_induct[where P = "\<lambda>ord' g' e' N T y.
            ord' = ord \<longrightarrow> g' = g \<longrightarrow> e' = end_v \<longrightarrow>
            finite T \<longrightarrow> T \<subseteq> set (gnodes g) \<longrightarrow> T \<inter> C \<noteq> {} \<longrightarrow> False"], goal_cases)
    case (1 f ord' g' e' N T y)
    show ?case
    proof (intro impI)
      assume eqs: "ord' = ord" "g' = g" "e' = end_v"
        and fin: "finite T" and sub: "T \<subseteq> set (gnodes g)" and TC: "T \<inter> C \<noteq> {}"
      have ne: "T \<noteq> {}" using TC by auto
      have en: "set (ord T) = T" "distinct (ord T)"
        using ord fin by (simp_all add: enumerates_def)
      from visit_pass_returns[OF wfg en(2) _ sub, of end_v N] en(1)
      obtain N' T' where pass: "visit_pass g end_v (ord T) (N, T) = Inr (N', T')"
        by auto
      from visit_pass_bounds[OF pass] en(1)
      have "T' \<subseteq> expanded g end_v (ord T)" by auto
      then have sub': "T' \<subseteq> set (gnodes g)" using expanded_subset[OF wfg] by blast
      then have fin': "finite T'" by (rule finite_subset) simp
      have TC': "T' \<inter> C \<noteq> {}" using visit_pass_keeps[OF C pass TC] by simp
      from 1 have "f ord g end_v N' T' = Some y"
        using ne pass by (simp add: eqs)
      with 1 fin' sub' TC' show False by blast
    qed
  qed
  then show "finite T \<Longrightarrow> T \<subseteq> set (gnodes g) \<Longrightarrow> T \<inter> C \<noteq> {} \<Longrightarrow>
         visit_loop ord g end_v N T = None"
    by (cases "visit_loop ord g end_v N T") auto
qed

definition frontier_inv :: "digraph \<Rightarrow> vertex \<Rightarrow> vertex \<Rightarrow> vertex set \<Rightarrow> vertex set \<Rightarrow> bool" where
  "frontier_inv g start end_v N T \<longleftrightarrow>
     finite T \<and> T \<subseteq> N \<and> N \<subseteq> set (gnodes g) \<and> start \<in> N \<and>
     N \<subseteq> (edges_avoiding g end_v)\<^sup>* `` {start} \<and>
     (\<forall>v \<in> N - T. edges_avoiding g end_v `` {v} \<subseteq> N)"

lemma visit_loop_result:
  assumes ord: "enumerates ord" and wfg: "wf_graph g"
  shows "visit_loop ord g end_v N T = Some y \<Longrightarrow> frontier_inv g start end_v N T \<Longrightarrow>
         y = Inr ((edges_avoiding g end_v)\<^sup>* `` {start})"
proof -
  let ?R = "edges_avoiding g end_v"
  have "visit_loop ord g end_v N T = Some y \<Longrightarrow>
          ord = ord \<longrightarrow> g = g \<longrightarrow> end_v = end_v \<longrightarrow>
          frontier_inv g start end_v N T \<longrightarrow> y = Inr (?R\<^sup>* `` {start})"
  proof (rule visit_loop.raw_induct[where P = "\<lambda>ord' g' e' N T y.
            ord' = ord \<longrightarrow> g' = g \<longrightarrow> e' = end_v \<longrightarrow>
            frontier_inv g start end_v N T \<longrightarrow> y = Inr (?R\<^sup>* `` {start})"], goal_cases)
    case (1 f ord' g' e' N T y)
    show ?case
    proof (intro impI)
      assume eqs: "ord' = ord" "g' = g" "e' = end_v"
        and inv: "frontier_inv g start end_v N T"
      from inv have fin: "finite T" and TN: "T \<subseteq> N" and Ng: "N \<subseteq> set (gnodes g)"
        and sN: "start \<in> N" and NR: "N \<subseteq> ?R\<^sup>* `` {start}"
        and closed: "\<And>v. v \<in> N \<Longrightarrow> v \<notin> T \<Longrightarrow> ?R `` {v} \<subseteq> N"
        by (auto simp: frontier_inv_def)
      show "y = Inr (?R\<^sup>* `` {start})"
      proof (cases "T = {}")
        case True
        with 1 have y: "y = Inr N" by simp
        have "v \<in> N" if "(start, v) \<in> ?R\<^sup>*" for v
          using that
        proof (induction rule: rtrancl_induct)
          case base
          show ?case by (rule sN)
        next
          case (step a b)
          then show ?case using closed[of a] True by auto
        qed
        then have "?R\<^sup>* `` {start} \<subseteq> N" by auto
        with NR y show ?thesis by auto
      next
        case False
        have en: "set (ord T) = T" "distinct (ord T)"
          using ord fin by (simp_all add: enumerates_def)
        have Tg: "T \<subseteq> set (gnodes g)" using TN Ng by auto
        from visit_pass_returns[OF wfg en(2) _ Tg, of end_v N] en(1)
        obtain N' T' where pass: "visit_pass g end_v (ord T) (N, T) = Inr (N', T')"
          by auto
        from visit_pass_bounds[OF pass] en(1)
        have N': "N' = N \<union> ?R `` T" and T'1: "T' \<subseteq> ?R `` T" and T'2: "?R `` T - T \<subseteq> T'"
          by (auto simp: expanded_def)
        have "?R `` T \<subseteq> set (gnodes g)"
          using expanded_subset[OF wfg, of end_v "ord T"] en(1) by (simp add: expanded_def)
        then have Ng': "N' \<subseteq> set (gnodes g)" using Ng N' by auto
        have fin': "finite T'" using T'1 \<open>?R `` T \<subseteq> set (gnodes g)\<close>
          by (meson finite_subset List.finite_set)
        have "?R `` T \<subseteq> ?R\<^sup>* `` {start}"
        proof
          fix x assume "x \<in> ?R `` T"
          then obtain t where t: "t \<in> T" "(t, x) \<in> ?R" by auto
          then have "(start, t) \<in> ?R\<^sup>*" using TN NR by auto
          with t(2) show "x \<in> ?R\<^sup>* `` {start}" by auto
        qed
        then have NR': "N' \<subseteq> ?R\<^sup>* `` {start}" using NR N' by auto
        have closed': "?R `` {v} \<subseteq> N'" if "v \<in> N' - T'" for v
        proof (cases "v \<in> T")
          case True
          then show ?thesis using N' by auto
        next
          case False
          with that T'2 have "v \<notin> ?R `` T" by auto
          with that N' have "v \<in> N" by auto
          from closed[OF this False] N' show ?thesis by auto
        qed
        have inv': "frontier_inv g start end_v N' T'"
          unfolding frontier_inv_def using fin' T'1 N' Ng' sN NR' closed' by auto
        from 1 have "f ord g end_v N' T' = Some y"
          using False pass by (simp add: eqs)
        with 1 inv' show ?thesis by blast
      qed
    qed
  qed
  then show "visit_loop ord g end_v N T = Some y \<Longrightarrow> frontier_inv g start end_v N T \<Longrightarrow>
         y = Inr (?R\<^sup>* `` {start})"
    by simp
qed

lemma enumerates_sorted_list_of_set: "enumerates sorted_list_of_set"
  by (simp add: enumerates_def)

lemma frontier_inv_start:
  "start \<in> set (gnodes g) \<Longrightarrow> frontier_inv g start end_v {start} {start}"
  by (simp add: frontier_inv_def)

lemma visit_loop_terminates_reach:
  assumes ord: "enumerates ord"
    and nocycle: "\<And>v. (start, v) \<in> (edges_avoiding g end_v)\<^sup>* \<Longrightarrow>
                    (v, v) \<notin> (edges_avoiding g end_v)\<^sup>+"
  shows "finite T \<Longrightarrow> T \<subseteq> (edges_avoiding g end_v)\<^sup>* `` {start} \<Longrightarrow>
           \<exists>y. visit_loop ord g end_v N T = Some y"
proof -
  let ?R = "edges_avoiding g end_v"
  let ?Reach = "?R\<^sup>* `` {start}"
  let ?R' = "{(u, v). (u, v) \<in> ?R \<and> u \<in> ?Reach}"
  have sub: "?R' \<subseteq> set (gedges g)" by (auto simp: edges_avoiding_def)
  have finR: "finite ?R" by (rule finite_subset[of _ "set (gedges g)"]) (auto simp: edges_avoiding_def)
  have fin: "finite ?R'" using sub by (rule finite_subset) simp
  have subR: "?R' \<subseteq> ?R" by auto
  have "acyclic ?R'"
    unfolding acyclic_def
  proof (intro allI notI)
    fix v assume c: "(v, v) \<in> ?R'\<^sup>+"
    then obtain u where "(v, u) \<in> ?R'" by (auto dest: tranclD)
    then have "(start, v) \<in> ?R\<^sup>*" by auto
    moreover have "(v, v) \<in> ?R\<^sup>+" using c trancl_mono[OF _ subR] by blast
    ultimately show False using nocycle by blast
  qed
  with fin have "wf (?R'\<inverse>)" by (rule finite_acyclic_wf_converse)
  then have wf: "wf (max_ext (?R'\<inverse>))" by (rule max_ext_wf)
  show "finite T \<Longrightarrow> T \<subseteq> ?Reach \<Longrightarrow> \<exists>y. visit_loop ord g end_v N T = Some y"
    using wf
  proof (induction T arbitrary: N rule: wf_induct_rule)
    case (less T)
    show ?case
    proof (cases "T = {}")
      case True
      then show ?thesis by (subst visit_loop.simps) simp
    next
      case False
      have en: "set (ord T) = T" using ord less.prems(1) by (simp add: enumerates_def)
      show ?thesis
      proof (cases "visit_pass g end_v (ord T) (N, T)")
        case (Inl err)
        then show ?thesis using False by (subst visit_loop.simps) simp
      next
        case (Inr r)
        obtain N' T' where r: "r = (N', T')" by (cases r)
        from visit_pass_bounds[OF Inr[unfolded r]] en
        have T': "T' \<subseteq> ?R `` T" by (auto simp: expanded_def)
        have fin': "finite T'"
          using T' by (rule finite_subset) (simp add: finite_Image finR)
        have reach': "T' \<subseteq> ?Reach"
        proof
          fix x assume "x \<in> T'"
          then obtain t where t: "t \<in> T" "(t, x) \<in> ?R" using T' by auto
          then have "(start, t) \<in> ?R\<^sup>*" using less.prems(2) by auto
          with t(2) show "x \<in> ?Reach" by auto
        qed
        have "(T', T) \<in> max_ext (?R'\<inverse>)"
        proof (rule max_extI[OF fin' less.prems(1) False])
          fix x assume "x \<in> T'"
          then obtain t where t: "t \<in> T" "(t, x) \<in> ?R" using T' by auto
          then have "t \<in> ?Reach" using less.prems(2) by auto
          with t show "\<exists>y\<in>T. (x, y) \<in> ?R'\<inverse>" by auto
        qed
        from less.IH[OF this fin' reach', of N'] obtain y where
          "visit_loop ord g end_v N' T' = Some y" ..
        then show ?thesis using False Inr r by (subst visit_loop.simps) simp
      qed
    qed
  qed
qed

lemma subgraph_between_when_returns:
  assumes "enumerates ord" and "wf_graph g"
    and "start \<in> set (gnodes g)" and "end_v \<in> set (gnodes g)"
    and "get_subgraph_between_nodes ord g start end_v = Some r"
  shows "\<exists>sg. r = Inr sg \<and> start \<in> set (gnodes sg) \<and> end_v \<in> set (gnodes sg) \<and>
           set (gnodes sg) =
             {v \<in> set (gnodes g). v = end_v \<or> (start, v) \<in> (edges_avoiding g end_v)\<^sup>*}"
proof -
  from assms(5) obtain y where
    loop: "visit_loop ord g end_v {start} {start} = Some y"
    and r: "r = (case y of Inl err \<Rightarrow> Inl err | Inr nodes \<Rightarrow> Inr (subgraph g (insert end_v nodes)))"
    by (auto simp: get_subgraph_between_nodes_def split: option.splits sum.splits)
  from visit_loop_result[OF assms(1,2) loop frontier_inv_start[OF assms(3)]]
  have y: "y = Inr ((edges_avoiding g end_v)\<^sup>* `` {start})" .
  let ?sg = "subgraph g (insert end_v ((edges_avoiding g end_v)\<^sup>* `` {start}))"
  have "r = Inr ?sg" using r y by simp
  moreover have "set (gnodes ?sg) =
      {v \<in> set (gnodes g). v = end_v \<or> (start, v) \<in> (edges_avoiding g end_v)\<^sup>*}"
    by (auto simp: subgraph_def)
  ultimately show ?thesis using assms(3,4) by auto
qed

text \<open>
  C8. For a graph \<open>g\<close> and vertices \<open>start\<close>, \<open>end\<close> of it: when no cycle that avoids
  \<open>end\<close> can be reached from \<open>start\<close> (on every acyclic graph, then),
  \<open>get_subgraph_between_nodes\<close> returns a graph, and whenever it returns, it returns
  a graph (no error) that contains \<open>start\<close> and \<open>end\<close>, whether or not \<open>end\<close> is
  reachable; its vertices are exactly \<open>end\<close> and the vertices reachable from
  \<open>start\<close> along edges that do not leave \<open>end\<close>, so nothing found only through the
  successors of \<open>end\<close> is in it. (With such a cycle the search does not return,
  see C10.)
\<close>

theorem subgraph_between_contains_endpoints:
  assumes "enumerates ord" and "wf_graph g"
    and "start \<in> set (gnodes g)" and "end_v \<in> set (gnodes g)"
  shows "(\<not> (\<exists>v. (start, v) \<in> (edges_avoiding g end_v)\<^sup>* \<and>
                 (v, v) \<in> (edges_avoiding g end_v)\<^sup>+) \<longrightarrow>
          (\<exists>sg. get_subgraph_between_nodes ord g start end_v = Some (Inr sg) \<and>
                start \<in> set (gnodes sg) \<and> end_v \<in> set (gnodes sg) \<and>
                set (gnodes sg) =
                  {v \<in> set (gnodes g).
                     v = end_v \<or> (start, v) \<in> (edges_avoiding g end_v)\<^sup>*})) \<and>
         (\<forall>r. get_subgraph_between_nodes ord g start end_v = Some r \<longrightarrow>
          (\<exists>sg. r = Inr sg \<and> start \<in> set (gnodes sg) \<and> end_v \<in> set (gnodes sg) \<and>
                set (gnodes sg) =
                  {v \<in> set (gnodes g).
                     v = end_v \<or> (start, v) \<in> (edges_avoiding g end_v)\<^sup>*}))"
proof (intro conjI impI allI)
  fix r assume "get_subgraph_between_nodes ord g start end_v = Some r"
  from subgraph_between_when_returns[OF assms this]
  show "\<exists>sg. r = Inr sg \<and> start \<in> set (gnodes sg) \<and> end_v \<in> set (gnodes sg) \<and>
                set (gnodes sg) =
                  {v \<in> set (gnodes g).
                     v = end_v \<or> (start, v) \<in> (edges_avoiding g end_v)\<^sup>*}" .
next
  assume nc: "\<not> (\<exists>v. (start, v) \<in> (edges_avoiding g end_v)\<^sup>* \<and>
                 (v, v) \<in> (edges_avoiding g end_v)\<^sup>+)"
  have "\<exists>y. visit_loop ord g end_v {start} {start} = Some y"
    by (rule visit_loop_terminates_reach[OF assms(1)]) (use nc in auto)
  then obtain y where y: "visit_loop ord g end_v {start} {start} = Some y" ..
  have "\<exists>r. get_subgraph_between_nodes ord g start end_v = Some r"
    by (cases y) (simp_all add: get_subgraph_between_nodes_def y)
  then obtain r where r: "get_subgraph_between_nodes ord g start end_v = Some r" ..
  from subgraph_between_when_returns[OF assms r] r
  show "\<exists>sg. get_subgraph_between_nodes ord g start end_v = Some (Inr sg) \<and>
                start \<in> set (gnodes sg) \<and> end_v \<in> set (gnodes sg) \<and>
                set (gnodes sg) =
                  {v \<in> set (gnodes g).
                     v = end_v \<or> (start, v) \<in> (edges_avoiding g end_v)\<^sup>*}"
    by auto
qed

theorem subgraph_between_contains_endpoints_witness:
  "enumerates sorted_list_of_set \<and>
   wf_graph \<lparr>gnodes = [0, 1, 2, 3], gedges = [(0, 1), (2, 3)]\<rparr> \<and>
   0 \<in> set (gnodes \<lparr>gnodes = [0, 1, 2, 3], gedges = [(0, 1), (2, 3)]\<rparr>) \<and>
   2 \<in> set (gnodes \<lparr>gnodes = [0, 1, 2, 3], gedges = [(0, 1), (2, 3)]\<rparr>) \<and>
   \<not> (\<exists>v. (0, v) \<in> (edges_avoiding \<lparr>gnodes = [0, 1, 2, 3], gedges = [(0, 1), (2, 3)]\<rparr> 2)\<^sup>* \<and>
          (v, v) \<in> (edges_avoiding \<lparr>gnodes = [0, 1, 2, 3], gedges = [(0, 1), (2, 3)]\<rparr> 2)\<^sup>+) \<and>
   get_subgraph_between_nodes sorted_list_of_set
       \<lparr>gnodes = [0, 1, 2, 3], gedges = [(0, 1), (2, 3)]\<rparr> 0 2 =
     Some (Inr \<lparr>gnodes = [0, 1, 2], gedges = [(0, 1)]\<rparr>) \<and>
   set (gnodes \<lparr>gnodes = [0, 1, 2], gedges = [(0::nat, 1::nat)]\<rparr>) =
     {v \<in> set (gnodes \<lparr>gnodes = [0, 1, 2, 3], gedges = [(0, 1), (2, 3)]\<rparr>).
        v = 2 \<or> (0, v) \<in> (edges_avoiding \<lparr>gnodes = [0, 1, 2, 3], gedges = [(0, 1), (2, 3)]\<rparr> 2)\<^sup>*}"
proof -
  let ?g = "\<lparr>gnodes = [0, 1, 2, 3], gedges = [(0::nat, 1::nat), (2, 3)]\<rparr>"
  have w: "wf_graph ?g" by (simp add: wf_graph_def)
  have R: "edges_avoiding ?g 2 = {(0, 1)}" by (auto simp: edges_avoiding_def)
  have "acyclic (edges_avoiding ?g 2)" unfolding R by (simp add: acyclic_insert, simp add: acyclic_def)
  then have nc: "\<not> (\<exists>v. (0, v) \<in> (edges_avoiding ?g 2)\<^sup>* \<and> (v, v) \<in> (edges_avoiding ?g 2)\<^sup>+)"
    by (auto simp: acyclic_def)
  have run: "get_subgraph_between_nodes sorted_list_of_set ?g 0 2 =
     Some (Inr \<lparr>gnodes = [0, 1, 2], gedges = [(0, 1)]\<rparr>)"
    by (simp add: get_subgraph_between_nodes_def visit_loop.simps successors_def subgraph_def)
  from subgraph_between_contains_endpoints[OF enumerates_sorted_list_of_set w, of 0 2] nc run
  have "set (gnodes \<lparr>gnodes = [0, 1, 2], gedges = [(0::nat, 1::nat)]\<rparr>) =
     {v \<in> set (gnodes ?g). v = 2 \<or> (0, v) \<in> (edges_avoiding ?g 2)\<^sup>*}"
    by auto
  with enumerates_sorted_list_of_set w nc run show ?thesis by simp
qed

text \<open>
  C10. On an acyclic graph the search returns (the frontier empties), whatever the
  iteration order. When a cycle that avoids \<open>end\<close> can be reached from \<open>start\<close>
  without passing \<open>end\<close>, the search never returns: a vertex met again is put back
  into the frontier.
\<close>

theorem frontier_search_termination:
  assumes "enumerates ord"
  shows "(acyclic (set (gedges g)) \<longrightarrow> get_subgraph_between_nodes ord g start end_v \<noteq> None) \<and>
         (wf_graph g \<and> start \<in> set (gnodes g) \<and>
            (\<exists>v. (start, v) \<in> (edges_avoiding g end_v)\<^sup>* \<and> (v, v) \<in> (edges_avoiding g end_v)\<^sup>+)
          \<longrightarrow> get_subgraph_between_nodes ord g start end_v = None)"
proof (intro conjI impI)
  assume "acyclic (set (gedges g))"
  from visit_loop_terminates[OF assms this, of "{start}" end_v "{start}"]
  show "get_subgraph_between_nodes ord g start end_v \<noteq> None"
    by (auto simp: get_subgraph_between_nodes_def split: sum.splits)
next
  let ?R = "edges_avoiding g end_v"
  assume a: "wf_graph g \<and> start \<in> set (gnodes g) \<and>
            (\<exists>v. (start, v) \<in> ?R\<^sup>* \<and> (v, v) \<in> ?R\<^sup>+)"
  define C where "C = {v. (start, v) \<in> ?R\<^sup>* \<and> (\<exists>w. (v, w) \<in> ?R\<^sup>* \<and> (w, w) \<in> ?R\<^sup>+)}"
  have Cstep: "v \<noteq> end_v \<and> (\<exists>u \<in> set (successors g v). u \<in> C)" if "v \<in> C" for v
  proof -
    from that obtain w where sv: "(start, v) \<in> ?R\<^sup>*" and vw: "(v, w) \<in> ?R\<^sup>*"
      and ww: "(w, w) \<in> ?R\<^sup>+"
      by (auto simp: C_def)
    have "\<exists>u. (v, u) \<in> ?R \<and> (u, w) \<in> ?R\<^sup>*"
    proof (cases "v = w")
      case True
      then show ?thesis using ww by (auto dest: tranclD)
    next
      case False
      then show ?thesis using vw by (auto elim: converse_rtranclE)
    qed
    then obtain u where u: "(v, u) \<in> ?R" "(u, w) \<in> ?R\<^sup>*" by blast
    have "u \<in> C" using sv u ww by (auto simp: C_def)
    moreover have "u \<in> set (successors g v)" "v \<noteq> end_v"
      using u(1) by (auto simp: edges_avoiding_def set_successors)
    ultimately show ?thesis by blast
  qed
  have "start \<in> C" using a by (auto simp: C_def)
  then have "{start} \<inter> C \<noteq> {}" by simp
  from visit_loop_diverges[OF assms _ Cstep _ _ this, of "{start}"] a
  have "visit_loop ord g end_v {start} {start} = None" by simp
  then show "get_subgraph_between_nodes ord g start end_v = None"
    by (simp add: get_subgraph_between_nodes_def)
qed

theorem frontier_search_termination_witness:
  "enumerates sorted_list_of_set \<and>
   acyclic (set (gedges \<lparr>gnodes = [0, 1, 2], gedges = [(0, 1)]\<rparr>)) \<and>
   get_subgraph_between_nodes sorted_list_of_set \<lparr>gnodes = [0, 1, 2], gedges = [(0, 1)]\<rparr> 0 2
     \<noteq> None \<and>
   wf_graph \<lparr>gnodes = [0, 1], gedges = [(0, 0)]\<rparr> \<and>
   0 \<in> set (gnodes \<lparr>gnodes = [0, 1], gedges = [(0, 0)]\<rparr>) \<and>
   (0, 0) \<in> (edges_avoiding \<lparr>gnodes = [0, 1], gedges = [(0, 0)]\<rparr> 1)\<^sup>* \<and>
   (0, 0) \<in> (edges_avoiding \<lparr>gnodes = [0, 1], gedges = [(0, 0)]\<rparr> 1)\<^sup>+ \<and>
   get_subgraph_between_nodes sorted_list_of_set \<lparr>gnodes = [0, 1], gedges = [(0, 0)]\<rparr> 0 1
     = None"
proof -
  let ?a = "\<lparr>gnodes = [0, 1, 2], gedges = [(0::nat, 1::nat)]\<rparr>"
  let ?c = "\<lparr>gnodes = [0, 1], gedges = [(0::nat, 0::nat)]\<rparr>"
  have ac: "acyclic (set (gedges ?a))" by (simp add: acyclic_insert, simp add: acyclic_def)
  have w: "wf_graph ?c" by (simp add: wf_graph_def)
  have e: "(0, 0) \<in> edges_avoiding ?c 1" by (simp add: edges_avoiding_def)
  then have t: "(0, 0) \<in> (edges_avoiding ?c 1)\<^sup>+" by (rule r_into_trancl)
  have r: "(0, 0) \<in> (edges_avoiding ?c 1)\<^sup>*" by simp
  from frontier_search_termination[OF enumerates_sorted_list_of_set, of ?a 0 2] ac
  have 1: "get_subgraph_between_nodes sorted_list_of_set ?a 0 2 \<noteq> None" by blast
  from frontier_search_termination[OF enumerates_sorted_list_of_set, of ?c 0 1] w r t
  have 2: "get_subgraph_between_nodes sorted_list_of_set ?c 0 1 = None" by auto
  from enumerates_sorted_list_of_set ac 1 w r t 2 show ?thesis by simp
qed

section \<open>Region utilities: inserting a graph\<close>

text \<open>
  \<open>insert_graph(self, place, graph)\<close>. \<open>copy.deepcopy(graph)\<close> creates a new object for
  every vertex of \<open>graph\<close> (the vertices of a graph are allocated objects, so \<open>h ! v\<close>
  is the object copied) and keeps the edges between the copies. \<open>nx.union\<close> refuses
  graphs that share a vertex. \<open>self.update(edges, nodes)\<close> adds the vertices, then the
  edges. \<open>nx.topological_sort\<close> belongs to the graph library: the model takes it as
  the parameter \<open>topological_sort\<close>, \<open>None\<close> when the library raises
  \<open>NetworkXUnfeasible\<close> on a cycle. \<open>copy.copy(self.successors(place))\<close> is a snapshot
  of the successors (the lookup raises \<open>NetworkXError\<close> when \<open>place\<close> is not a vertex),
  and \<open>remove_edges\<close> is the loop that removes the edge to each of them.
  The edge list of the model keeps the order of insertion per source vertex, which
  is all that \<open>successors\<close> reads.
\<close>

definition index_of :: "'a list \<Rightarrow> 'a \<Rightarrow> nat" where
  "index_of xs x = length (takeWhile (\<lambda>y. y \<noteq> x) xs)"

definition copy_vertex :: "heap \<Rightarrow> digraph \<Rightarrow> vertex \<Rightarrow> vertex" where
  "copy_vertex h g v = length h + index_of (gnodes g) v"

definition deepcopy_graph :: "heap \<Rightarrow> digraph \<Rightarrow> heap \<times> digraph" where
  "deepcopy_graph h g =
     (h @ map (\<lambda>v. h ! v) (gnodes g),
      \<lparr>gnodes = map (copy_vertex h g) (gnodes g),
       gedges = map (\<lambda>e. (copy_vertex h g (fst e), copy_vertex h g (snd e))) (gedges g)\<rparr>)"

definition union :: "digraph \<Rightarrow> digraph \<Rightarrow> error + digraph" where
  "union G H =
     (if set (gnodes G) \<inter> set (gnodes H) \<noteq> {} then Inl NetworkXError
      else Inr \<lparr>gnodes = gnodes G @ gnodes H, gedges = gedges G @ gedges H\<rparr>)"

definition update :: "digraph \<Rightarrow> (vertex \<times> vertex) list \<Rightarrow> vertex list \<Rightarrow> digraph" where
  "update g es ns =
     fold (\<lambda>e g. g\<lparr>gnodes := insert_new (snd e) (insert_new (fst e) (gnodes g)),
                    gedges := insert_new e (gedges g)\<rparr>) es
       (fold (\<lambda>x g. g\<lparr>gnodes := insert_new x (gnodes g)\<rparr>) ns g)"

definition remove_edge :: "digraph \<Rightarrow> vertex \<Rightarrow> vertex \<Rightarrow> error + digraph" where
  "remove_edge g u v =
     (if (u, v) \<in> set (gedges g) then Inr (g\<lparr>gedges := removeAll (u, v) (gedges g)\<rparr>)
      else Inl NetworkXError)"

fun remove_edges :: "digraph \<Rightarrow> vertex \<Rightarrow> vertex list \<Rightarrow> error + digraph" where
  "remove_edges g place [] = Inr g"
| "remove_edges g place (s # ss) = bind (remove_edge g place s) (\<lambda>g'. remove_edges g' place ss)"

definition insert_graph ::
  "(digraph \<Rightarrow> vertex list option) \<Rightarrow> heap \<Rightarrow> digraph \<Rightarrow> vertex \<Rightarrow> digraph \<Rightarrow>
     error + (heap \<times> digraph)" where
  "insert_graph topological_sort h self place graph =
     (if length (gnodes graph) > 0 then
        (let (h1, graph_copy) = deepcopy_graph h graph
         in bind (union self graph_copy) (\<lambda>augmented_graph.
            let g1 = update self (gedges augmented_graph) (gnodes augmented_graph)
            in case topological_sort graph_copy of
                 None \<Rightarrow> Inl NetworkXUnfeasible
               | Some graph_copy_nodes_ordered \<Rightarrow>
                   (case graph_copy_nodes_ordered of
                      [] \<Rightarrow> Inl IndexError
                    | first_node_graph # _ \<Rightarrow>
                        if place \<notin> set (gnodes g1) then Inl NetworkXError
                        else bind (remove_edges g1 place (successors g1 place)) (\<lambda>g2.
                             bind (add_edge g2 (Some place) (Some first_node_graph)) (\<lambda>g3.
                             Inr (h1, g3))))))
      else Inr (h, self))"

lemma distinct_insert_new: "distinct xs \<Longrightarrow> distinct (insert_new x xs)"
  by (simp add: insert_new_def)

lemma update_nodes_only:
  "gedges (fold (\<lambda>x g. g\<lparr>gnodes := insert_new x (gnodes g)\<rparr>) ns g) = gedges g \<and>
   set (gnodes (fold (\<lambda>x g. g\<lparr>gnodes := insert_new x (gnodes g)\<rparr>) ns g)) = set (gnodes g) \<union> set ns"
  by (induction ns arbitrary: g) auto

lemma update_edges_only:
  "set (gedges (fold (\<lambda>e g. g\<lparr>gnodes := insert_new (snd e) (insert_new (fst e) (gnodes g)),
                    gedges := insert_new e (gedges g)\<rparr>) es g)) = set (gedges g) \<union> set es \<and>
   set (gnodes (fold (\<lambda>e g. g\<lparr>gnodes := insert_new (snd e) (insert_new (fst e) (gnodes g)),
                    gedges := insert_new e (gedges g)\<rparr>) es g)) =
     set (gnodes g) \<union> fst ` set es \<union> snd ` set es \<and>
   (distinct (gedges g) \<longrightarrow>
      distinct (gedges (fold (\<lambda>e g. g\<lparr>gnodes := insert_new (snd e) (insert_new (fst e) (gnodes g)),
                    gedges := insert_new e (gedges g)\<rparr>) es g)))"
proof (induction es arbitrary: g)
  case Nil
  show ?case by simp
next
  case (Cons e es)
  show ?case
    using Cons.IH[of "g\<lparr>gnodes := insert_new (snd e) (insert_new (fst e) (gnodes g)),
                    gedges := insert_new e (gedges g)\<rparr>"]
    by (auto simp: distinct_insert_new)
qed

lemma update_sets:
  "set (gedges (update g es ns)) = set (gedges g) \<union> set es"
  "set (gnodes (update g es ns)) = set (gnodes g) \<union> set ns \<union> fst ` set es \<union> snd ` set es"
  "distinct (gedges g) \<Longrightarrow> distinct (gedges (update g es ns))"
  unfolding update_def
  using update_edges_only[of es "fold (\<lambda>x g. g\<lparr>gnodes := insert_new x (gnodes g)\<rparr>) ns g"]
        update_nodes_only[of ns g]
  by auto

lemma distinct_successors: "distinct (gedges g) \<Longrightarrow> distinct (successors g v)"
  unfolding successors_def
  by (rule distinct_map[THEN iffD2]) (auto simp: inj_on_def)

lemma remove_edges_filter:
  "distinct ss \<Longrightarrow> (\<forall>s \<in> set ss. (place, s) \<in> set (gedges g)) \<Longrightarrow>
     remove_edges g place ss =
       Inr (g\<lparr>gedges := filter (\<lambda>e. \<not> (fst e = place \<and> snd e \<in> set ss)) (gedges g)\<rparr>)"
proof (induction ss arbitrary: g)
  case Nil
  then show ?case by simp
next
  case (Cons s ss)
  let ?g1 = "g\<lparr>gedges := removeAll (place, s) (gedges g)\<rparr>"
  have 1: "remove_edge g place s = Inr ?g1" using Cons.prems by (simp add: remove_edge_def)
  have "\<forall>x \<in> set ss. (place, x) \<in> set (gedges ?g1)" using Cons.prems by auto
  from Cons.IH[OF _ this] Cons.prems(1)
  have "remove_edges ?g1 place ss =
       Inr (?g1\<lparr>gedges := filter (\<lambda>e. \<not> (fst e = place \<and> snd e \<in> set ss)) (gedges ?g1)\<rparr>)"
    by simp
  moreover have "filter (\<lambda>e. \<not> (fst e = place \<and> snd e \<in> set ss)) (removeAll (place, s) (gedges g))
      = filter (\<lambda>e. \<not> (fst e = place \<and> snd e \<in> set (s # ss))) (gedges g)"
    by (induction "gedges g") (auto simp: removeAll_filter_not_eq intro!: filter_cong)
  ultimately show ?case using 1 by (simp add: bind_simps)
qed

lemma remove_edges_successors:
  assumes "distinct (gedges g)"
  shows "remove_edges g place (successors g place) =
           Inr (g\<lparr>gedges := filter (\<lambda>e. fst e \<noteq> place) (gedges g)\<rparr>)"
proof -
  have "\<forall>s \<in> set (successors g place). (place, s) \<in> set (gedges g)"
    by (auto simp: successors_def)
  from remove_edges_filter[OF distinct_successors[OF assms] this]
  have "remove_edges g place (successors g place) =
       Inr (g\<lparr>gedges := filter (\<lambda>e. \<not> (fst e = place \<and> snd e \<in> set (successors g place)))
                          (gedges g)\<rparr>)" .
  moreover have "filter (\<lambda>e. \<not> (fst e = place \<and> snd e \<in> set (successors g place))) (gedges g)
      = filter (\<lambda>e. fst e \<noteq> place) (gedges g)"
    by (rule filter_cong) (force simp: successors_def)+
  ultimately show ?thesis by simp
qed

lemma copy_vertex_fresh: "length h \<le> copy_vertex h g v"
  by (simp add: copy_vertex_def)

text \<open>
  C9. For a graph \<open>self\<close> (no repeated edge, all vertices allocated), a vertex \<open>place\<close>
  of it and a non-empty \<open>graph\<close> whose copy the library can sort: \<open>insert_graph\<close>
  returns; the vertices of \<open>self\<close> and of the copy are vertices of the result; its
  edges are the edges of \<open>self\<close> that do not leave \<open>place\<close>, the edges of the copy and
  the one edge from \<open>place\<close> to the first vertex of the sorted copy. No edge leads from
  the copy (in particular from its last vertex) to a former successor of \<open>place\<close> or
  to any vertex of \<open>self\<close>.
\<close>

theorem insert_graph_effect:
  assumes dist: "distinct (gedges self)"
    and bself: "bounded (length h) self"
    and place: "place \<in> set (gnodes self)"
    and nonempty: "gnodes graph \<noteq> []"
    and copy: "deepcopy_graph h graph = (h1, graph_copy)"
    and sorted: "topological_sort graph_copy = Some ordered"
    and listing: "set ordered = set (gnodes graph_copy)"
  shows "\<exists>g'. insert_graph topological_sort h self place graph = Inr (h1, g') \<and>
           set (gnodes self) \<union> set (gnodes graph_copy) \<subseteq> set (gnodes g') \<and>
           set (gedges g') =
             {e \<in> set (gedges self). fst e \<noteq> place} \<union> set (gedges graph_copy) \<union>
             {(place, hd ordered)} \<and>
           (\<forall>s \<in> set (successors self place). (last ordered, s) \<notin> set (gedges g')) \<and>
           (\<forall>u \<in> set (gnodes graph_copy). \<forall>v \<in> set (gnodes self). (u, v) \<notin> set (gedges g'))"
proof -
  have gc: "graph_copy = \<lparr>gnodes = map (copy_vertex h graph) (gnodes graph),
       gedges = map (\<lambda>e. (copy_vertex h graph (fst e), copy_vertex h graph (snd e))) (gedges graph)\<rparr>"
    using copy by (auto simp: deepcopy_graph_def)
  have fresh_n: "\<And>v. v \<in> set (gnodes graph_copy) \<Longrightarrow> length h \<le> v"
    by (auto simp: gc copy_vertex_fresh)
  have fresh_e: "\<And>e. e \<in> set (gedges graph_copy) \<Longrightarrow> length h \<le> fst e \<and> length h \<le> snd e"
    by (auto simp: gc copy_vertex_fresh)
  have old_n: "\<And>v. v \<in> set (gnodes self) \<Longrightarrow> v < length h"
    using bself by (auto simp: bounded_def)
  have old_e: "\<And>e. e \<in> set (gedges self) \<Longrightarrow> fst e < length h \<and> snd e < length h"
    using bself by (auto simp: bounded_def)
  have ne: "gnodes graph_copy \<noteq> []" using nonempty by (simp add: gc)
  then have one: "ordered \<noteq> []" using listing by auto
  then obtain first_node rest where ord: "ordered = first_node # rest" by (cases ordered) auto
  have first_in: "first_node \<in> set (gnodes graph_copy)" using listing ord by auto
  have last_in: "last ordered \<in> set (gnodes graph_copy)" using listing one last_in_set by blast
  have disj: "set (gnodes self) \<inter> set (gnodes graph_copy) = {}"
    using fresh_n old_n by fastforce
  let ?aug = "\<lparr>gnodes = gnodes self @ gnodes graph_copy, gedges = gedges self @ gedges graph_copy\<rparr>"
  have un: "union self graph_copy = Inr ?aug" using disj by (simp add: union_def)
  let ?g1 = "update self (gedges ?aug) (gnodes ?aug)"
  have e1: "set (gedges ?g1) = set (gedges self) \<union> set (gedges graph_copy)"
    by (auto simp: update_sets(1))
  have n1: "set (gnodes self) \<union> set (gnodes graph_copy) \<subseteq> set (gnodes ?g1)"
    by (auto simp: update_sets(2))
  have d1: "distinct (gedges ?g1)" using dist by (rule update_sets(3))
  have p1: "place \<in> set (gnodes ?g1)" using place n1 by auto
  let ?g2 = "?g1\<lparr>gedges := filter (\<lambda>e. fst e \<noteq> place) (gedges ?g1)\<rparr>"
  have rm: "remove_edges ?g1 place (successors ?g1 place) = Inr ?g2"
    using remove_edges_successors[OF d1] .
  let ?g3 = "?g2\<lparr>gnodes := insert_new first_node (insert_new place (gnodes ?g2)),
                  gedges := insert_new (place, first_node) (gedges ?g2)\<rparr>"
  have ae: "add_edge ?g2 (Some place) (Some first_node) = Inr ?g3"
    by (simp add: add_edge_def)
  have run: "insert_graph topological_sort h self place graph = Inr (h1, ?g3)"
    unfolding insert_graph_def using nonempty copy un sorted ord p1 rm ae
    by (simp add: bind_simps Let_def)
  have pl: "place < length h" using old_n[OF place] .
  have edges3: "set (gedges ?g3) =
      {e \<in> set (gedges self). fst e \<noteq> place} \<union> set (gedges graph_copy) \<union> {(place, hd ordered)}"
    using e1 fresh_e pl ord by fastforce
  have nodes3: "set (gnodes self) \<union> set (gnodes graph_copy) \<subseteq> set (gnodes ?g3)"
    using n1 by auto
  have cross: "(u, v) \<notin> set (gedges ?g3)" if "u \<in> set (gnodes graph_copy)" "v < length h" for u v
  proof
    assume "(u, v) \<in> set (gedges ?g3)"
    then consider "(u, v) \<in> set (gedges self)" | "(u, v) \<in> set (gedges graph_copy)"
      | "(u, v) = (place, hd ordered)"
      unfolding edges3 by auto
    then show False
    proof cases
      case 1
      then show ?thesis using old_e[of "(u, v)"] fresh_n[OF that(1)] by simp
    next
      case 2
      then show ?thesis using fresh_e[of "(u, v)"] that(2) by simp
    next
      case 3
      then show ?thesis using fresh_n[OF that(1)] pl by simp
    qed
  qed
  have succ_old: "\<And>s. s \<in> set (successors self place) \<Longrightarrow> s < length h"
    using old_e by (force simp: successors_def)
  have c1: "\<forall>s \<in> set (successors self place). (last ordered, s) \<notin> set (gedges ?g3)"
    using cross[OF last_in] succ_old by blast
  have c2: "\<forall>u \<in> set (gnodes graph_copy). \<forall>v \<in> set (gnodes self). (u, v) \<notin> set (gedges ?g3)"
    using cross old_n by blast
  from run nodes3 edges3 c1 c2 show ?thesis by blast
qed

theorem insert_graph_effect_witness:
  "distinct (gedges \<lparr>gnodes = [0, 1, 2], gedges = [(0, 1), (1, 2), (0, 2)]\<rparr>) \<and>
   bounded (length [IfStart, Stmt Continue, IfEnd, Stmt Continue, Stmt (ID ''x'')])
     \<lparr>gnodes = [0, 1, 2], gedges = [(0, 1), (1, 2), (0, 2)]\<rparr> \<and>
   0 \<in> set (gnodes \<lparr>gnodes = [0, 1, 2], gedges = [(0, 1), (1, 2), (0, 2)]\<rparr>) \<and>
   gnodes \<lparr>gnodes = [3, 4], gedges = [(3, 4)]\<rparr> \<noteq> [] \<and>
   deepcopy_graph [IfStart, Stmt Continue, IfEnd, Stmt Continue, Stmt (ID ''x'')]
       \<lparr>gnodes = [3, 4], gedges = [(3, 4)]\<rparr> =
     ([IfStart, Stmt Continue, IfEnd, Stmt Continue, Stmt (ID ''x''), Stmt Continue, Stmt (ID ''x'')],
      \<lparr>gnodes = [5, 6], gedges = [(5, 6)]\<rparr>) \<and>
   (\<lambda>g. Some (gnodes g)) \<lparr>gnodes = [5, 6], gedges = [(5, 6)]\<rparr> = Some [5, 6] \<and>
   set [5, 6] = set (gnodes \<lparr>gnodes = [5, 6], gedges = [(5::nat, 6::nat)]\<rparr>) \<and>
   insert_graph (\<lambda>g. Some (gnodes g))
       [IfStart, Stmt Continue, IfEnd, Stmt Continue, Stmt (ID ''x'')]
       \<lparr>gnodes = [0, 1, 2], gedges = [(0, 1), (1, 2), (0, 2)]\<rparr> 0
       \<lparr>gnodes = [3, 4], gedges = [(3, 4)]\<rparr> =
     Inr ([IfStart, Stmt Continue, IfEnd, Stmt Continue, Stmt (ID ''x''), Stmt Continue, Stmt (ID ''x'')],
          \<lparr>gnodes = [0, 1, 2, 5, 6], gedges = [(1, 2), (5, 6), (0, 5)]\<rparr>)"
proof -
  let ?h = "[IfStart, Stmt Continue, IfEnd, Stmt Continue, Stmt (ID ''x'')]"
  let ?self = "\<lparr>gnodes = [0, 1, 2], gedges = [(0::nat, 1::nat), (1, 2), (0, 2)]\<rparr>"
  let ?graph = "\<lparr>gnodes = [3, 4], gedges = [(3::nat, 4::nat)]\<rparr>"
  let ?copy = "\<lparr>gnodes = [5, 6], gedges = [(5::nat, 6::nat)]\<rparr>"
  have 1: "distinct (gedges ?self)" by simp
  have 2: "bounded (length ?h) ?self" by (simp add: bounded_def)
  have 3: "0 \<in> set (gnodes ?self)" by simp
  have 4: "gnodes ?graph \<noteq> []" by simp
  have 5: "deepcopy_graph ?h ?graph = (?h @ [Stmt Continue, Stmt (ID ''x'')], ?copy)"
    by (simp add: deepcopy_graph_def copy_vertex_def index_of_def)
  have 6: "(\<lambda>g. Some (gnodes g)) ?copy = Some [5, 6]" by simp
  have 7: "set [5, 6] = set (gnodes ?copy)" by simp
  from insert_graph_effect[where topological_sort = "\<lambda>g. Some (gnodes g)", OF 1 2 3 4 5 6 7] obtain g' where
    run: "insert_graph (\<lambda>g. Some (gnodes g)) ?h ?self 0 ?graph =
            Inr (?h @ [Stmt Continue, Stmt (ID ''x'')], g')"
    by blast
  have 8: "insert_graph (\<lambda>g. Some (gnodes g)) ?h ?self 0 ?graph =
     Inr (?h @ [Stmt Continue, Stmt (ID ''x'')],
          \<lparr>gnodes = [0, 1, 2, 5, 6], gedges = [(1, 2), (5, 6), (0, 5)]\<rparr>)"
    by (simp add: insert_graph_def deepcopy_graph_def copy_vertex_def index_of_def union_def
          update_def insert_new_code successors_def remove_edge_def add_edge_def bind_simps)
  from 1 2 3 4 5 6 7 8 run show ?thesis by simp
qed

section \<open>Generations of a synchronization variable\<close>

text \<open>
  \<open>rename_syncvar(name, iteration)\<close> appends \<open>_ITER\<close> to the name and replaces every
  \<open>ITER\<close> of the result by \<open>str(iteration)\<close>. \<open>str_int\<close> is Python's \<open>str\<close> on an
  integer, \<open>replace\<close> is \<open>str.replace\<close> (left to right, without overlap). On a name
  in which \<open>ITER\<close> does not occur the result is the name, an underscore and the
  number (\<open>rename_syncvar_suffix\<close>).
\<close>

definition digit_char :: "nat \<Rightarrow> char" where
  "digit_char d = ''0123456789'' ! d"

function str_nat :: "nat \<Rightarrow> string" where
  "str_nat n = (if n < 10 then [digit_char n] else str_nat (n div 10) @ [digit_char (n mod 10)])"
  by pat_completeness auto
termination
  by (relation "measure id") auto

definition str_int :: "int \<Rightarrow> string" where
  "str_int i = (if i < 0 then CHR ''-'' # str_nat (nat (- i)) else str_nat (nat i))"

function replace :: "string \<Rightarrow> string \<Rightarrow> string \<Rightarrow> string" where
  "replace old new s =
     (if old = [] \<or> s = [] then s
      else if take (length old) s = old then new @ replace old new (drop (length old) s)
      else hd s # replace old new (tl s))"
  by pat_completeness auto
termination
  by (relation "measure (\<lambda>(old, new, s). length s)") (auto simp: neq_Nil_conv)

declare replace.simps [simp del] str_nat.simps [simp del]

definition SYNCVAR_UNFOLD :: string where
  "SYNCVAR_UNFOLD = ''_ITER''"

definition rename_syncvar :: "string \<Rightarrow> int \<Rightarrow> string" where
  "rename_syncvar name iteration = replace ''ITER'' (str_int iteration) (name @ SYNCVAR_UNFOLD)"






section \<open>The unfolding engine\<close>

text \<open>
  The functions of \<open>syntaxlib/ast.py\<close> mutate the tree in place; the model returns the
  new tree. \<open>copy.deepcopy\<close> of a tree is the same value. \<open>rename_iterated_variables\<close>
  is the visitor that renames every \<open>ID\<close> below a node. \<open>for n in compound\<close> iterates
  the children of a node, so \<open>map_children\<close> applies a function to each child
  (\<open>map_children_err\<close> when the function may raise). \<open>insert_node_after_continue\<close>
  raises a \<open>TypeError\<close> on a \<open>Compound\<close> whose \<open>block_items\<close> is \<open>None\<close>;
  \<open>splice_continues\<close> is its loop over the copy \<open>items\<close> (\<open>list.remove\<close> takes the
  first equal element out, which is the \<open>Continue\<close> at hand: the ones before it
  have been moved to the end). \<open>map_dfs\<close> is \<open>map_dfs\<close> applied to
  \<open>insert_node_after_continue\<close>, its only use in the unfolding; on a \<open>Compound\<close>
  that the function left alone (result \<open>None\<close>) it goes on into the statements.
  \<open>unfold'\<close> is \<open>_unfold\<close>; the two names of \<open>syncvariables\<close> have been looked up by
  \<open>unfold\<close> before the first call.
\<close>

fun is_If :: "node \<Rightarrow> bool" where
  "is_If (If c t f) = True"
| "is_If n = False"

fun is_Continue :: "node \<Rightarrow> bool" where
  "is_Continue Continue = True"
| "is_Continue n = False"

fun is_While :: "node \<Rightarrow> bool" where
  "is_While (While c s) = True"
| "is_While n = False"

fun is_Decl :: "node \<Rightarrow> bool" where
  "is_Decl (Decl n ty i) = True"
| "is_Decl n = False"

fun rename_iterated_variables :: "string list \<Rightarrow> int \<Rightarrow> node \<Rightarrow> node" where
  "rename_iterated_variables variables iteration (ID name) =
     ID (if name \<in> set variables then rename_syncvar name iteration else name)"
| "rename_iterated_variables variables iteration (FileAST ext) =
     FileAST (map (rename_iterated_variables variables iteration) ext)"
| "rename_iterated_variables variables iteration (Compound items) =
     Compound (map (rename_iterated_variables variables iteration) items)"
| "rename_iterated_variables variables iteration EmptyCompound = EmptyCompound"
| "rename_iterated_variables variables iteration (If c t f) =
     If (rename_iterated_variables variables iteration c)
        (rename_iterated_variables variables iteration t)
        (map_option (rename_iterated_variables variables iteration) f)"
| "rename_iterated_variables variables iteration (While c s) =
     While (rename_iterated_variables variables iteration c)
           (rename_iterated_variables variables iteration s)"
| "rename_iterated_variables variables iteration (FuncDef d b) =
     FuncDef (rename_iterated_variables variables iteration d)
             (rename_iterated_variables variables iteration b)"
| "rename_iterated_variables variables iteration Continue = Continue"
| "rename_iterated_variables variables iteration (Assignment op l r) =
     Assignment op (rename_iterated_variables variables iteration l)
                   (rename_iterated_variables variables iteration r)"
| "rename_iterated_variables variables iteration (Decl name ty init) =
     Decl name (rename_iterated_variables variables iteration ty)
               (map_option (rename_iterated_variables variables iteration) init)"
| "rename_iterated_variables variables iteration (TypeDecl declname ty) =
     TypeDecl declname (rename_iterated_variables variables iteration ty)"
| "rename_iterated_variables variables iteration (PtrDecl ty) =
     PtrDecl (rename_iterated_variables variables iteration ty)"
| "rename_iterated_variables variables iteration (Enum name vals) =
     Enum name (map (rename_iterated_variables variables iteration) vals)"
| "rename_iterated_variables variables iteration (Other kind cs) =
     Other kind (map (rename_iterated_variables variables iteration) cs)"

fun map_children :: "(node \<Rightarrow> node) \<Rightarrow> node \<Rightarrow> node" where
  "map_children g (FileAST ext) = FileAST (map g ext)"
| "map_children g (Compound items) = Compound (map g items)"
| "map_children g EmptyCompound = EmptyCompound"
| "map_children g (If c t f) = If (g c) (g t) (map_option g f)"
| "map_children g (While c s) = While (g c) (g s)"
| "map_children g (FuncDef d b) = FuncDef (g d) (g b)"
| "map_children g Continue = Continue"
| "map_children g (Assignment op l r) = Assignment op (g l) (g r)"
| "map_children g (Decl name ty init) = Decl name (g ty) (map_option g init)"
| "map_children g (TypeDecl declname ty) = TypeDecl declname (g ty)"
| "map_children g (PtrDecl ty) = PtrDecl (g ty)"
| "map_children g (Enum name vals) = Enum name (map g vals)"
| "map_children g (ID name) = ID name"
| "map_children g (Other kind cs) = Other kind (map g cs)"

fun mapM :: "('a \<Rightarrow> error + 'b) \<Rightarrow> 'a list \<Rightarrow> error + 'b list" where
  "mapM g [] = Inr []"
| "mapM g (x # xs) = bind (g x) (\<lambda>y. bind (mapM g xs) (\<lambda>ys. Inr (y # ys)))"

fun mapM_option :: "('a \<Rightarrow> error + 'b) \<Rightarrow> 'a option \<Rightarrow> error + 'b option" where
  "mapM_option g None = Inr None"
| "mapM_option g (Some x) = bind (g x) (\<lambda>y. Inr (Some y))"

fun map_children_err :: "(node \<Rightarrow> error + node) \<Rightarrow> node \<Rightarrow> error + node" where
  "map_children_err g (FileAST ext) = bind (mapM g ext) (\<lambda>ext'. Inr (FileAST ext'))"
| "map_children_err g (Compound items) = bind (mapM g items) (\<lambda>items'. Inr (Compound items'))"
| "map_children_err g EmptyCompound = Inr EmptyCompound"
| "map_children_err g (If c t f) =
     bind (g c) (\<lambda>c'. bind (g t) (\<lambda>t'. bind (mapM_option g f) (\<lambda>f'. Inr (If c' t' f'))))"
| "map_children_err g (While c s) = bind (g c) (\<lambda>c'. bind (g s) (\<lambda>s'. Inr (While c' s')))"
| "map_children_err g (FuncDef d b) = bind (g d) (\<lambda>d'. bind (g b) (\<lambda>b'. Inr (FuncDef d' b')))"
| "map_children_err g Continue = Inr Continue"
| "map_children_err g (Assignment op l r) =
     bind (g l) (\<lambda>l'. bind (g r) (\<lambda>r'. Inr (Assignment op l' r')))"
| "map_children_err g (Decl name ty init) =
     bind (g ty) (\<lambda>ty'. bind (mapM_option g init) (\<lambda>init'. Inr (Decl name ty' init')))"
| "map_children_err g (TypeDecl declname ty) = bind (g ty) (\<lambda>ty'. Inr (TypeDecl declname ty'))"
| "map_children_err g (PtrDecl ty) = bind (g ty) (\<lambda>ty'. Inr (PtrDecl ty'))"
| "map_children_err g (Enum name vals) = bind (mapM g vals) (\<lambda>vals'. Inr (Enum name vals'))"
| "map_children_err g (ID name) = Inr (ID name)"
| "map_children_err g (Other kind cs) = bind (mapM g cs) (\<lambda>cs'. Inr (Other kind cs'))"

fun splice_continues :: "node list \<Rightarrow> node list \<Rightarrow> node list \<Rightarrow> node list" where
  "splice_continues [] node block_items = block_items"
| "splice_continues (i # items) node block_items =
     (if is_Continue i
      then splice_continues items node (remove1 i block_items @ node @ [i])
      else splice_continues items node block_items)"

fun insert_node_after_continue :: "node \<Rightarrow> node list \<Rightarrow> error + (node \<times> bool option)" where
  "insert_node_after_continue (Compound block_items) node =
     (if length (filter is_Continue block_items) > 0
      then Inr (Compound (splice_continues block_items node block_items), Some False)
      else Inr (Compound block_items, None))"
| "insert_node_after_continue EmptyCompound node = Inl TypeError"
| "insert_node_after_continue codeast node = Inr (codeast, None)"

fun map_dfs :: "node \<Rightarrow> node list \<Rightarrow> error + node"
  and map_dfs_list :: "node list \<Rightarrow> node list \<Rightarrow> error + node list" where
  "map_dfs (Compound block_items) body =
     bind (insert_node_after_continue (Compound block_items) body) (\<lambda>(node', continue_recursion).
       if continue_recursion = None \<or> continue_recursion = Some True
       then bind (map_dfs_list block_items body) (\<lambda>items'. Inr (Compound items'))
       else Inr node')"
| "map_dfs EmptyCompound body =
     bind (insert_node_after_continue EmptyCompound body) (\<lambda>(node', continue_recursion).
       Inr node')"
| "map_dfs (FileAST ext) body = bind (map_dfs_list ext body) (\<lambda>ext'. Inr (FileAST ext'))"
| "map_dfs (If c t None) body = bind (map_dfs t body) (\<lambda>t'. Inr (If c t' None))"
| "map_dfs (If c t (Some e)) body =
     bind (map_dfs t body) (\<lambda>t'. bind (map_dfs e body) (\<lambda>e'. Inr (If c t' (Some e'))))"
| "map_dfs (While c s) body = bind (map_dfs s body) (\<lambda>s'. Inr (While c s'))"
| "map_dfs (FuncDef d b) body = bind (map_dfs b body) (\<lambda>b'. Inr (FuncDef d b'))"
| "map_dfs node body = Inr node"
| "map_dfs_list [] body = Inr []"
| "map_dfs_list (statement # rest) body =
     bind (map_dfs statement body) (\<lambda>statement'.
     bind (map_dfs_list rest body) (\<lambda>rest'. Inr (statement' # rest')))"

definition rename_upon_stm :: "string \<Rightarrow> string \<Rightarrow> int \<Rightarrow> node \<Rightarrow> node" where
  "rename_upon_stm round_var mbox_var iteration stm =
     rename_iterated_variables [round_var] iteration
       (if iteration > 0 then rename_iterated_variables [mbox_var] (iteration - 1) stm else stm)"

definition rename_new_body :: "string \<Rightarrow> string \<Rightarrow> int \<Rightarrow> node list \<Rightarrow> node list" where
  "rename_new_body round_var mbox_var iteration new_body_iteration =
     map (\<lambda>n. case n of
                 If c t f \<Rightarrow> If (rename_iterated_variables [mbox_var, round_var] iteration c) t f
               | _ \<Rightarrow> n)
       (map (\<lambda>n. if \<not> is_If n
                  then rename_iterated_variables [mbox_var, round_var] iteration n else n)
          new_body_iteration)"

definition rename_last_upon :: "string \<Rightarrow> string \<Rightarrow> int \<Rightarrow> node \<Rightarrow> node" where
  "rename_last_upon round_var mbox_var iteration iftrue =
     map_children (\<lambda>stm. if \<not> is_If stm
        then rename_iterated_variables [mbox_var] iteration
               (rename_iterated_variables [round_var] (iteration + 1) stm)
        else stm) iftrue"

function unfold' :: "node \<Rightarrow> node list \<Rightarrow> string \<Rightarrow> string \<Rightarrow> int \<Rightarrow> int \<Rightarrow> error + node" where
  "unfold' compound while_body round_var mbox_var iteration unfoldings =
     (let new_body_iteration = while_body;
          compound1 = map_children
            (\<lambda>n. if \<not> is_If n then rename_upon_stm round_var mbox_var iteration n else n) compound;
          new_body = rename_new_body round_var mbox_var iteration new_body_iteration
      in bind (map_dfs compound1 new_body) (\<lambda>compound2.
         map_children_err
           (\<lambda>upon. case upon of
              If c t f \<Rightarrow>
                if unfoldings > iteration
                then bind (unfold' t while_body round_var mbox_var (iteration + 1) unfoldings)
                       (\<lambda>t'. Inr (If c t' f))
                else Inr (If c (rename_last_upon round_var mbox_var iteration t) f)
            | _ \<Rightarrow> Inr upon)
           compound2))"
  by pat_completeness auto
termination
  by (relation "measure (\<lambda>(compound, while_body, round_var, mbox_var, iteration, unfoldings).
                   nat (unfoldings - iteration))") auto

declare unfold'.simps [simp del]

definition example_body :: "node list" where
  "example_body =
     [Assignment ''='' (ID ''mbox'') (Other ''FuncCall'' [ID ''havoc'', Other ''ExprList'' [ID ''phase'', ID ''round'']]),
      If (Other ''BinaryOp:=='' [ID ''round'', Other ''Constant:1'' []])
         (Compound [Assignment ''='' (ID ''round'') (Other ''Constant:3'' []), Continue]) None,
      If (Other ''BinaryOp:=='' [ID ''round'', Other ''Constant:2'' []])
         (Compound [Assignment ''='' (ID ''round'') (Other ''Constant:4'' []), Continue]) None]"

section \<open>The declaration phase\<close>

text \<open>
  \<open>declare_iterated_variables\<close> walks the tree with a visitor. \<open>visit_Decl\<close> does not
  descend into a declaration; when the declaration has one of the two shapes and a
  name of \<open>variables\<close>, it makes the copies for \<open>range(0, iterations + 1)\<close> and
  inserts each at index 0 of \<open>current_parent.block_items\<close> (\<open>insert_new_decls\<close>;
  an \<open>AttributeError\<close> when the parent has no \<open>block_items\<close>, here the argument
  \<open>None\<close>). The visitor iterates a \<open>Compound\<close> while these insertions shift its
  statements to the right: it then meets statements again that it has visited, and
  the list \<open>visited\<close> (compared by identity) keeps a declaration from being copied
  twice. So every statement present at the start is handled once, in order, which
  is what \<open>visit_block\<close> does, with the statements inserted so far in \<open>inserted\<close>.
\<close>

fun is_Enum :: "node \<Rightarrow> bool" where
  "is_Enum (Enum name vals) = True"
| "is_Enum n = False"

fun visit_Decl_matches :: "string list \<Rightarrow> node \<Rightarrow> error + bool" where
  "visit_Decl_matches variables (Decl name (TypeDecl declname ty) init) =
     Inr (is_Enum ty \<and> name \<in> set variables)"
| "visit_Decl_matches variables (Decl name (PtrDecl (TypeDecl declname ty)) init) =
     Inr (declname \<in> set variables)"
| "visit_Decl_matches variables (Decl name (PtrDecl ty) init) = Inl AttributeError"
| "visit_Decl_matches variables node = Inr False"

fun new_decl :: "node \<Rightarrow> int \<Rightarrow> node" where
  "new_decl (Decl name (TypeDecl declname ty) init) i =
     Decl (rename_syncvar name i) (TypeDecl (rename_syncvar name i) ty) init"
| "new_decl (Decl name (PtrDecl (TypeDecl declname ty)) init) i =
     Decl (rename_syncvar name i) (PtrDecl (TypeDecl (rename_syncvar name i) ty)) init"
| "new_decl node i = node"

fun insert_new_decls :: "node \<Rightarrow> int list \<Rightarrow> node list option \<Rightarrow> error + node list option" where
  "insert_new_decls node [] block_items = Inr block_items"
| "insert_new_decls node (i # is) None = Inl AttributeError"
| "insert_new_decls node (i # is) (Some block_items) =
     insert_new_decls node is (Some (new_decl node i # block_items))"

definition visit_Decl ::
  "string list \<Rightarrow> int \<Rightarrow> node list option \<Rightarrow> node \<Rightarrow> error + node list option" where
  "visit_Decl variables iterations block_items node =
     bind (visit_Decl_matches variables node) (\<lambda>matches.
       if matches then insert_new_decls node [0..iterations] block_items
       else Inr block_items)"

fun visit :: "string list \<Rightarrow> int \<Rightarrow> node \<Rightarrow> error + node"
  and visit_list :: "string list \<Rightarrow> int \<Rightarrow> node list \<Rightarrow> error + node list"
  and visit_block ::
    "string list \<Rightarrow> int \<Rightarrow> node list \<Rightarrow> node list \<Rightarrow> error + (node list \<times> node list)" where
  "visit variables iterations (Decl name ty init) =
     bind (visit_Decl variables iterations None (Decl name ty init)) (\<lambda>_.
       Inr (Decl name ty init))"
| "visit variables iterations (Compound items) =
     bind (visit_block variables iterations [] items) (\<lambda>(inserted, items').
       Inr (Compound (inserted @ items')))"
| "visit variables iterations EmptyCompound = Inr EmptyCompound"
| "visit variables iterations (FileAST ext) =
     bind (visit_list variables iterations ext) (\<lambda>ext'. Inr (FileAST ext'))"
| "visit variables iterations (If c t None) =
     bind (visit variables iterations c) (\<lambda>c'.
     bind (visit variables iterations t) (\<lambda>t'. Inr (If c' t' None)))"
| "visit variables iterations (If c t (Some e)) =
     bind (visit variables iterations c) (\<lambda>c'.
     bind (visit variables iterations t) (\<lambda>t'.
     bind (visit variables iterations e) (\<lambda>e'. Inr (If c' t' (Some e')))))"
| "visit variables iterations (While c s) =
     bind (visit variables iterations c) (\<lambda>c'.
     bind (visit variables iterations s) (\<lambda>s'. Inr (While c' s')))"
| "visit variables iterations (FuncDef d b) =
     bind (visit variables iterations d) (\<lambda>d'.
     bind (visit variables iterations b) (\<lambda>b'. Inr (FuncDef d' b')))"
| "visit variables iterations Continue = Inr Continue"
| "visit variables iterations (Assignment op l r) =
     bind (visit variables iterations l) (\<lambda>l'.
     bind (visit variables iterations r) (\<lambda>r'. Inr (Assignment op l' r')))"
| "visit variables iterations (TypeDecl declname ty) =
     bind (visit variables iterations ty) (\<lambda>ty'. Inr (TypeDecl declname ty'))"
| "visit variables iterations (PtrDecl ty) =
     bind (visit variables iterations ty) (\<lambda>ty'. Inr (PtrDecl ty'))"
| "visit variables iterations (Enum name vals) =
     bind (visit_list variables iterations vals) (\<lambda>vals'. Inr (Enum name vals'))"
| "visit variables iterations (ID name) = Inr (ID name)"
| "visit variables iterations (Other kind cs) =
     bind (visit_list variables iterations cs) (\<lambda>cs'. Inr (Other kind cs'))"
| "visit_list variables iterations [] = Inr []"
| "visit_list variables iterations (c # cs) =
     bind (visit variables iterations c) (\<lambda>c'.
     bind (visit_list variables iterations cs) (\<lambda>cs'. Inr (c' # cs')))"
| "visit_block variables iterations inserted [] = Inr (inserted, [])"
| "visit_block variables iterations inserted (c # cs) =
     (if is_Decl c
      then bind (visit_Decl variables iterations (Some inserted) c) (\<lambda>block_items.
           bind (visit_block variables iterations (case block_items of Some b \<Rightarrow> b | None \<Rightarrow> inserted) cs)
             (\<lambda>(inserted', cs'). Inr (inserted', c # cs')))
      else bind (visit variables iterations c) (\<lambda>c'.
           bind (visit_block variables iterations inserted cs)
             (\<lambda>(inserted', cs'). Inr (inserted', c' # cs'))))"

definition declare_iterated_variables :: "node \<Rightarrow> string list \<Rightarrow> int \<Rightarrow> error + node" where
  "declare_iterated_variables ast variables iterations = visit variables iterations ast"

section \<open>unfold\<close>

text \<open>
  \<open>get_main_while\<close> is a visitor that stores every \<open>While\<close> it meets in \<open>result\<close>
  and does not descend into it: the result is the last loop in visiting order that
  is not inside another loop. \<open>unfold\<close> mutates that loop in place;
  \<open>modify_main_while\<close> rebuilds the tree around it. The handlers \<open>upons\<close> are the
  \<open>If\<close> statements of the loop body, the same objects after the declaration phase.
\<close>

fun visit_While :: "node \<Rightarrow> node option \<Rightarrow> node option"
  and visit_While_list :: "node list \<Rightarrow> node option \<Rightarrow> node option" where
  "visit_While (While c s) result = Some (While c s)"
| "visit_While (FileAST ext) result = visit_While_list ext result"
| "visit_While (Compound items) result = visit_While_list items result"
| "visit_While EmptyCompound result = result"
| "visit_While (If c t None) result = visit_While t (visit_While c result)"
| "visit_While (If c t (Some e)) result = visit_While e (visit_While t (visit_While c result))"
| "visit_While (FuncDef d b) result = visit_While b (visit_While d result)"
| "visit_While Continue result = result"
| "visit_While (Assignment op l r) result = visit_While r (visit_While l result)"
| "visit_While (Decl name ty None) result = visit_While ty result"
| "visit_While (Decl name ty (Some init)) result = visit_While init (visit_While ty result)"
| "visit_While (TypeDecl declname ty) result = visit_While ty result"
| "visit_While (PtrDecl ty) result = visit_While ty result"
| "visit_While (Enum name vals) result = visit_While_list vals result"
| "visit_While (ID name) result = result"
| "visit_While (Other kind cs) result = visit_While_list cs result"
| "visit_While_list [] result = result"
| "visit_While_list (c # cs) result = visit_While_list cs (visit_While c result)"

definition get_main_while :: "node \<Rightarrow> node option" where
  "get_main_while ast = visit_While ast None"

definition has_while :: "node \<Rightarrow> bool" where
  "has_while n \<longleftrightarrow> get_main_while n \<noteq> None"

fun modify_main_while :: "(node \<Rightarrow> error + node) \<Rightarrow> node \<Rightarrow> error + node"
  and modify_main_while_list :: "(node \<Rightarrow> error + node) \<Rightarrow> node list \<Rightarrow> error + node list" where
  "modify_main_while g (While c s) = g (While c s)"
| "modify_main_while g (FileAST ext) =
     bind (modify_main_while_list g ext) (\<lambda>ext'. Inr (FileAST ext'))"
| "modify_main_while g (Compound items) =
     bind (modify_main_while_list g items) (\<lambda>items'. Inr (Compound items'))"
| "modify_main_while g (If c t None) =
     (if has_while t then bind (modify_main_while g t) (\<lambda>t'. Inr (If c t' None))
      else bind (modify_main_while g c) (\<lambda>c'. Inr (If c' t None)))"
| "modify_main_while g (If c t (Some e)) =
     (if has_while e then bind (modify_main_while g e) (\<lambda>e'. Inr (If c t (Some e')))
      else if has_while t then bind (modify_main_while g t) (\<lambda>t'. Inr (If c t' (Some e)))
      else bind (modify_main_while g c) (\<lambda>c'. Inr (If c' t (Some e))))"
| "modify_main_while g (FuncDef d b) =
     (if has_while b then bind (modify_main_while g b) (\<lambda>b'. Inr (FuncDef d b'))
      else bind (modify_main_while g d) (\<lambda>d'. Inr (FuncDef d' b)))"
| "modify_main_while g (Assignment op l r) =
     (if has_while r then bind (modify_main_while g r) (\<lambda>r'. Inr (Assignment op l r'))
      else bind (modify_main_while g l) (\<lambda>l'. Inr (Assignment op l' r)))"
| "modify_main_while g (Decl name ty None) =
     bind (modify_main_while g ty) (\<lambda>ty'. Inr (Decl name ty' None))"
| "modify_main_while g (Decl name ty (Some init)) =
     (if has_while init then bind (modify_main_while g init) (\<lambda>i'. Inr (Decl name ty (Some i')))
      else bind (modify_main_while g ty) (\<lambda>ty'. Inr (Decl name ty' (Some init))))"
| "modify_main_while g (TypeDecl declname ty) =
     bind (modify_main_while g ty) (\<lambda>ty'. Inr (TypeDecl declname ty'))"
| "modify_main_while g (PtrDecl ty) = bind (modify_main_while g ty) (\<lambda>ty'. Inr (PtrDecl ty'))"
| "modify_main_while g (Enum name vals) =
     bind (modify_main_while_list g vals) (\<lambda>vals'. Inr (Enum name vals'))"
| "modify_main_while g (Other kind cs) =
     bind (modify_main_while_list g cs) (\<lambda>cs'. Inr (Other kind cs'))"
| "modify_main_while g n = Inr n"
| "modify_main_while_list g [] = Inr []"
| "modify_main_while_list g (c # cs) =
     (if list_ex has_while cs
      then bind (modify_main_while_list g cs) (\<lambda>cs'. Inr (c # cs'))
      else bind (modify_main_while g c) (\<lambda>c'. Inr (c' # cs)))"

definition lookup :: "(string \<rightharpoonup> string) \<Rightarrow> string \<Rightarrow> error + string" where
  "lookup d key = (case d key of None \<Rightarrow> Inl KeyError | Some v \<Rightarrow> Inr v)"

definition unfold_upons ::
  "node list \<Rightarrow> string \<Rightarrow> string \<Rightarrow> int \<Rightarrow> node \<Rightarrow> error + node" where
  "unfold_upons while_body round_var mbox_var k main_while =
     (case main_while of
        While c (Compound while_statements) \<Rightarrow>
          bind (mapM (\<lambda>upon. case upon of
                        If uc ut uf \<Rightarrow>
                          bind (unfold' ut while_body round_var mbox_var 0 (k - 1))
                            (\<lambda>ut'. Inr (If uc ut' uf))
                      | _ \<Rightarrow> Inr upon) while_statements)
            (\<lambda>while_statements'. Inr (While c (Compound while_statements')))
      | _ \<Rightarrow> Inr main_while)"

definition unfold :: "node \<Rightarrow> int \<Rightarrow> (string \<rightharpoonup> string) \<Rightarrow> error + node" where
  "unfold ast k syncvariables =
     (case get_main_while ast of
        None \<Rightarrow> Inl AttributeError
      | Some main_while \<Rightarrow>
          (case main_while of
             While c (Compound while_statements) \<Rightarrow>
               (let while_body = while_statements
                in bind (lookup syncvariables ''round'') (\<lambda>round_var.
                   bind (lookup syncvariables ''mbox'') (\<lambda>mbox_var.
                   bind (declare_iterated_variables ast [round_var, mbox_var] k) (\<lambda>ast1.
                   modify_main_while (unfold_upons while_body round_var mbox_var k) ast1))))
           | While c EmptyCompound \<Rightarrow> Inl TypeError
           | _ \<Rightarrow> Inl AttributeError))"

definition example_ast :: node where
  "example_ast = FuncDef (Decl ''main'' (Other ''FuncDecl'' []) None) (Compound
     [Decl ''round'' (TypeDecl ''round'' (Enum ''round_t'' [])) None,
      Decl ''mbox'' (PtrDecl (TypeDecl ''mbox'' (Other ''IdentifierType:void'' []))) None,
      While (Other ''Constant:1'' []) (Compound example_body)])"

section \<open>Claims about the unfolding engine\<close>

fun contains_while :: "node \<Rightarrow> bool" where
  "contains_while (While c s) = True"
| "contains_while (FileAST ext) = list_ex contains_while ext"
| "contains_while (Compound items) = list_ex contains_while items"
| "contains_while EmptyCompound = False"
| "contains_while (If c t f) =
     (contains_while c \<or> contains_while t \<or> (case f of None \<Rightarrow> False | Some e \<Rightarrow> contains_while e))"
| "contains_while (FuncDef d b) = (contains_while d \<or> contains_while b)"
| "contains_while Continue = False"
| "contains_while (Assignment op l r) = (contains_while l \<or> contains_while r)"
| "contains_while (Decl name ty init) =
     (contains_while ty \<or> (case init of None \<Rightarrow> False | Some e \<Rightarrow> contains_while e))"
| "contains_while (TypeDecl declname ty) = contains_while ty"
| "contains_while (PtrDecl ty) = contains_while ty"
| "contains_while (Enum name vals) = list_ex contains_while vals"
| "contains_while (ID name) = False"
| "contains_while (Other kind cs) = list_ex contains_while cs"

lemma visit_While_none:
  "\<not> contains_while n \<Longrightarrow> visit_While n result = result"
  "\<not> list_ex contains_while ns \<Longrightarrow> visit_While_list ns result = result"
proof (induction n result and ns result rule: visit_While_visit_While_list.induct)
qed (auto split: option.splits)

lemma get_main_while_none: "\<not> contains_while ast \<Longrightarrow> get_main_while ast = None"
  by (simp add: get_main_while_def visit_While_none)

text \<open>
  C1 (as the code has it). For a tree without a \<open>While\<close> node, \<open>unfold\<close> fails for
  every \<open>k\<close> and every mapping of roles, with the \<open>AttributeError\<close> of reading
  \<open>stmt\<close> of the \<open>None\<close> that \<open>get_main_while\<close> returned; the code has no
  \<open>PreconditionError\<close> and no \<open>raise\<close> of its own.
\<close>

theorem unfold_without_loop:
  "\<not> contains_while ast \<Longrightarrow> unfold ast k syncvariables = Inl AttributeError"
  by (simp add: unfold_def get_main_while_none)

theorem unfold_without_loop_witness:
  "\<not> contains_while (Compound [Assignment ''='' (ID ''x'') (ID ''y'')]) \<and>
   unfold (Compound [Assignment ''='' (ID ''x'') (ID ''y'')]) 1
     [''round'' \<mapsto> ''round'', ''mbox'' \<mapsto> ''mbox''] = Inl AttributeError"
  using unfold_without_loop[of "Compound [Assignment ''='' (ID ''x'') (ID ''y'')]" 1
          "[''round'' \<mapsto> ''round'', ''mbox'' \<mapsto> ''mbox'']"]
  by simp

text \<open>
  The claim as stated, that the failure is a \<open>PreconditionError\<close>, is false.
\<close>

theorem unfold_without_loop_not_precondition_error:
  "\<not> contains_while (Compound [ID ''x'']) \<and>
   unfold (Compound [ID ''x'']) 1 Map.empty \<noteq> Inl PreconditionError"
  by (simp add: unfold_def get_main_while_def)

















end
